theory Spec2Isabelle
  imports Main
begin

section \<open>Objects, references and the store\<close>

text \<open>
  The containers of the library are mutable objects that refer to each other, so the
  model keeps them in an explicit store.  A reference is the identity of an object;
  JavaScript's \<open>null\<close> and \<open>undefined\<close> are the value \<open>None\<close> of a
  \<open>ref option\<close>.

  A \<open>ListIterator\<close> is at once the iterator and the node of the chain: it holds
  the list that created it, its two neighbours and the element.  The class itself is
  not among the sources; its constructor \<open>new ListIterator(source, prev, next, value)\<close>
  and its accessors are modelled from their uses in \<open>List.ts\<close>.

  A \<open>List\<close> object has the three fields \<open>m_begin\<close>, \<open>m_end\<close> and
  \<open>m_size\<close>.  A field that was never assigned is \<open>None\<close>; for \<open>m_size\<close>,
  \<open>None\<close> stands for a content that is not a number (\<open>undefined\<close>, or the
  \<open>NaN\<close> that arithmetic on \<open>undefined\<close> gives).
\<close>

type_synonym ref = nat

datatype error = InvalidArgument | TypeError | OutOfRange

record 'a ListIterator =
  m_source :: ref
  m_prev :: "ref option"
  m_next :: "ref option"
  m_value :: "'a option"

record ListObj =
  m_begin :: "ref option"
  m_end :: "ref option"
  m_size :: "int option"

record 'a heap =
  iterators :: "'a ListIterator list"
  containers :: "ref \<Rightarrow> ListObj"

text \<open>
  A method is a function of the state it works on (for a list, the store).  It returns \<open>None\<close> when a loop ran out of
  fuel, and otherwise the store at the moment it stopped, together with the exception
  it threw (\<open>Inl\<close>) or the value it returned (\<open>Inr\<close>).
\<close>

type_synonym ('s, 'r) action = "'s \<Rightarrow> ('s \<times> (error + 'r)) option"

type_synonym ('a, 'r) js = "('a heap, 'r) action"

definition ret :: "'r \<Rightarrow> ('s, 'r) action" where
  "ret r h = Some (h, Inr r)"

definition throw :: "error \<Rightarrow> ('s, 'r) action" where
  "throw e h = Some (h, Inl e)"

definition bnd :: "('s, 'r) action \<Rightarrow> ('r \<Rightarrow> ('s, 'q) action) \<Rightarrow> ('s, 'q) action" where
  "bnd m f h =
     (case m h of
        None \<Rightarrow> None
      | Some (h', Inl e) \<Rightarrow> Some (h', Inl e)
      | Some (h', Inr r) \<Rightarrow> f r h')"

definition diverge :: "('s, 'r) action" where
  "diverge h = None"

subsection \<open>ListIterator\<close>

definition deref :: "'a heap \<Rightarrow> ref option \<Rightarrow> 'a ListIterator option" where
  "deref h it =
     (case it of
        None \<Rightarrow> None
      | Some a \<Rightarrow> if a < length (iterators h) then Some (iterators h ! a) else None)"

text \<open>Modelled from the spec: \<open>new ListIterator(source, prev, next, value)\<close> makes a
  new node object with these four fields.\<close>
definition new_ListIterator ::
  "ref \<Rightarrow> ref option \<Rightarrow> ref option \<Rightarrow> 'a option \<Rightarrow> ('a, ref option) js" where
  "new_ListIterator src p n v h =
     Some (h\<lparr>iterators := iterators h @ [\<lparr>m_source = src, m_prev = p, m_next = n, m_value = v\<rparr>]\<rparr>,
           Inr (Some (length (iterators h))))"

text \<open>Modelled from the spec: the accessors of a handle.  A call on \<open>null\<close> is a
  \<open>TypeError\<close>.\<close>
definition get_source :: "ref option \<Rightarrow> ('a, ref) js" where
  "get_source it h =
     (case deref h it of None \<Rightarrow> throw TypeError h | Some n \<Rightarrow> ret (m_source n) h)"

definition it_prev :: "ref option \<Rightarrow> ('a, ref option) js" where
  "it_prev it h =
     (case deref h it of None \<Rightarrow> throw TypeError h | Some n \<Rightarrow> ret (m_prev n) h)"

definition it_next :: "ref option \<Rightarrow> ('a, ref option) js" where
  "it_next it h =
     (case deref h it of None \<Rightarrow> throw TypeError h | Some n \<Rightarrow> ret (m_next n) h)"

definition it_value :: "ref option \<Rightarrow> ('a, 'a option) js" where
  "it_value it h =
     (case deref h it of None \<Rightarrow> throw TypeError h | Some n \<Rightarrow> ret (m_value n) h)"

definition setPrev :: "ref option \<Rightarrow> ref option \<Rightarrow> ('a, unit) js" where
  "setPrev it p h =
     (case it of
        None \<Rightarrow> throw TypeError h
      | Some a \<Rightarrow>
          if a < length (iterators h)
          then ret () (h\<lparr>iterators := (iterators h)[a := (iterators h ! a)\<lparr>m_prev := p\<rparr>]\<rparr>)
          else throw TypeError h)"

definition setNext :: "ref option \<Rightarrow> ref option \<Rightarrow> ('a, unit) js" where
  "setNext it n h =
     (case it of
        None \<Rightarrow> throw TypeError h
      | Some a \<Rightarrow>
          if a < length (iterators h)
          then ret () (h\<lparr>iterators := (iterators h)[a := (iterators h ! a)\<lparr>m_next := n\<rparr>]\<rparr>)
          else throw TypeError h)"

text \<open>Modelled from the spec: \<open>equals(other)\<close> compares both store identity and node
  identity.  A node has one source, so this is identity of the node; \<open>null\<close> is equal
  to no node.\<close>
definition it_equals :: "ref option \<Rightarrow> ref option \<Rightarrow> ('a, bool) js" where
  "it_equals it obj h =
     (case deref h it of None \<Rightarrow> throw TypeError h | Some n \<Rightarrow> ret (it = obj) h)"

subsection \<open>List: fields and accessors\<close>

definition this_begin :: "ref \<Rightarrow> ('a, ref option) js" where
  "this_begin this h = ret (m_begin (containers h this)) h"

definition this_end :: "ref \<Rightarrow> ('a, ref option) js" where
  "this_end this h = ret (m_end (containers h this)) h"

definition this_size :: "ref \<Rightarrow> ('a, int option) js" where
  "this_size this h = ret (m_size (containers h this)) h"

definition set_begin :: "ref \<Rightarrow> ref option \<Rightarrow> ('a, unit) js" where
  "set_begin this v h =
     ret () (h\<lparr>containers := (containers h)(this := (containers h this)\<lparr>m_begin := v\<rparr>)\<rparr>)"

definition set_end :: "ref \<Rightarrow> ref option \<Rightarrow> ('a, unit) js" where
  "set_end this v h =
     ret () (h\<lparr>containers := (containers h)(this := (containers h this)\<lparr>m_end := v\<rparr>)\<rparr>)"

definition set_size :: "ref \<Rightarrow> int option \<Rightarrow> ('a, unit) js" where
  "set_size this v h =
     ret () (h\<lparr>containers := (containers h)(this := (containers h this)\<lparr>m_size := v\<rparr>)\<rparr>)"

text \<open>\<open>this.m_size += n\<close>; on a content that is not a number the result is not a number.\<close>
definition add_size :: "ref \<Rightarrow> int \<Rightarrow> ('a, unit) js" where
  "add_size this n = bnd (this_size this) (\<lambda>s. set_size this (map_option (\<lambda>k. k + n) s))"

definition List_begin :: "ref \<Rightarrow> ('a, ref option) js" where
  "List_begin this = this_begin this"

definition List_end :: "ref \<Rightarrow> ('a, ref option) js" where
  "List_end this = this_end this"

definition List_size :: "ref \<Rightarrow> ('a, int option) js" where
  "List_size this = this_size this"

text \<open>Modelled from the spec: \<open>empty()\<close> of the base container is the zero check
  \<open>size() == 0\<close>.\<close>
definition List_empty :: "ref \<Rightarrow> ('a, bool) js" where
  "List_empty this = bnd (List_size this) (\<lambda>s. ret (s = Some 0))"

subsection \<open>List: clear, push, insert, erase\<close>

definition List_clear :: "ref \<Rightarrow> ('a, unit) js" where
  "List_clear this =
     bnd (new_ListIterator this None None None) (\<lambda>it.
     bnd (setPrev it it) (\<lambda>_.
     bnd (setNext it it) (\<lambda>_.
     bnd (set_begin this it) (\<lambda>_.
     bnd (set_end this it) (\<lambda>_.
     set_size this (Some 0))))))"

definition List_push_front :: "ref \<Rightarrow> 'a \<Rightarrow> ('a, unit) js" where
  "List_push_front this val =
     bnd (this_begin this) (\<lambda>b.
     bnd (new_ListIterator this None b (Some val)) (\<lambda>item.
     bnd (setPrev b item) (\<lambda>_.
     bnd (this_size this) (\<lambda>s.
     bnd (if s = Some 0
          then bnd (new_ListIterator this item item None) (\<lambda>e.
               bnd (set_end this e) (\<lambda>_.
               setNext item e))
          else bnd (this_end this) (\<lambda>e. setNext e item)) (\<lambda>_.
     bnd (set_begin this item) (\<lambda>_.
     add_size this 1))))))"

definition List_push_back :: "ref \<Rightarrow> 'a \<Rightarrow> ('a, unit) js" where
  "List_push_back this val =
     bnd (this_end this) (\<lambda>e.
     bnd (it_prev e) (\<lambda>prev.
     bnd (it_prev e) (\<lambda>prev'.
     bnd (new_ListIterator this prev' e (Some val)) (\<lambda>item.
     bnd (setNext prev item) (\<lambda>_.
     bnd (setPrev e item) (\<lambda>_.
     bnd (List_empty this) (\<lambda>emp.
     bnd (if emp
          then bnd (set_begin this item) (\<lambda>_. setPrev item e)
          else ret ()) (\<lambda>_.
     add_size this 1))))))))"

primrec List_push :: "ref \<Rightarrow> 'a list \<Rightarrow> ('a, int option) js" where
  "List_push this [] = List_size this"
| "List_push this (x # items) = bnd (List_push_back this x) (\<lambda>_. List_push this items)"

text \<open>The loop of \<open>insertByRepeatingVal\<close>: \<open>k\<close> iterations are left, \<open>i\<close> is the
  loop counter.  It returns the last node made and the first.\<close>
primrec repeat_items ::
  "nat \<Rightarrow> int \<Rightarrow> ref \<Rightarrow> 'a \<Rightarrow> ref option \<Rightarrow> ref option \<Rightarrow> ('a, ref option \<times> ref option) js" where
  "repeat_items 0 i this val prev first = ret (prev, first)"
| "repeat_items (Suc k) i this val prev first =
     bnd (new_ListIterator this prev None (Some val)) (\<lambda>item.
     bnd (setNext prev item) (\<lambda>_.
     repeat_items k (i + 1) this val item (if i = 0 then item else first)))"

definition insertByRepeatingVal :: "ref \<Rightarrow> ref option \<Rightarrow> int \<Rightarrow> 'a \<Rightarrow> ('a, ref option) js" where
  "insertByRepeatingVal this position sz val =
     bnd (get_source position) (\<lambda>src.
     if this \<noteq> src then throw InvalidArgument
     else
     bnd (it_prev position) (\<lambda>prev0.
     bnd (repeat_items (nat sz) 0 this val prev0 None) (\<lambda>(prev, first).
     bnd (List_empty this) (\<lambda>emp.
     bnd (if emp then ret True
          else bnd (it_prev first) (\<lambda>fp. bnd (List_end this) (\<lambda>e. it_equals fp e))) (\<lambda>c.
     bnd (if c then set_begin this first else ret ()) (\<lambda>_.
     bnd (setNext prev position) (\<lambda>_.
     bnd (setPrev position prev) (\<lambda>_.
     bnd (add_size this sz) (\<lambda>_.
     ret first)))))))))"

definition insert_by_val :: "ref \<Rightarrow> ref option \<Rightarrow> 'a \<Rightarrow> ('a, ref option) js" where
  "insert_by_val this position val = insertByRepeatingVal this position 1 val"

text \<open>The loop of \<open>insert_by_range\<close>, which walks the source range; \<open>sz\<close> counts
  the nodes made so far.\<close>
fun range_items ::
  "nat \<Rightarrow> ref \<Rightarrow> ref option \<Rightarrow> ref option \<Rightarrow> ref option \<Rightarrow> ref option \<Rightarrow> int \<Rightarrow>
   ('a, ref option \<times> ref option \<times> int) js" where
  "range_items 0 this it en prev first sz = diverge"
| "range_items (Suc fuel) this it en prev first sz =
     bnd (it_equals it en) (\<lambda>stop.
     if stop then ret (prev, first, sz)
     else
     bnd (it_value it) (\<lambda>v.
     bnd (new_ListIterator this prev None v) (\<lambda>item.
     bnd (if prev \<noteq> None then setNext prev item else ret ()) (\<lambda>_.
     bnd (it_next it) (\<lambda>it'.
     range_items fuel this it' en item (if sz = 0 then item else first) (sz + 1))))))"

definition insert_by_range ::
  "nat \<Rightarrow> ref \<Rightarrow> ref option \<Rightarrow> ref option \<Rightarrow> ref option \<Rightarrow> ('a, ref option) js" where
  "insert_by_range fuel this position begin en =
     bnd (get_source position) (\<lambda>src.
     if this \<noteq> src then throw InvalidArgument
     else
     bnd (it_prev position) (\<lambda>prev0.
     bnd (range_items fuel this begin en prev0 None 0) (\<lambda>(prev, first, sz).
     bnd (List_empty this) (\<lambda>emp.
     bnd (if emp then set_begin this first else ret ()) (\<lambda>_.
     bnd (setNext prev position) (\<lambda>_.
     bnd (setPrev position prev) (\<lambda>_.
     bnd (add_size this sz) (\<lambda>_.
     ret first))))))))"

text \<open>The three overloads of \<open>insert\<close>, told apart by the number and the type of the
  arguments.\<close>
datatype 'a insert_args =
    InsertVal "ref option" 'a
  | InsertFill "ref option" int 'a
  | InsertRange "ref option" "ref option" "ref option"

fun List_insert :: "nat \<Rightarrow> ref \<Rightarrow> 'a insert_args \<Rightarrow> ('a, ref option) js" where
  "List_insert fuel this (InsertVal position val) = insert_by_val this position val"
| "List_insert fuel this (InsertFill position sz val) = insertByRepeatingVal this position sz val"
| "List_insert fuel this (InsertRange position begin en) = insert_by_range fuel this position begin en"

text \<open>The counting loop of \<open>erase_by_range\<close>.\<close>
fun count_range :: "nat \<Rightarrow> ref option \<Rightarrow> ref option \<Rightarrow> int \<Rightarrow> ('a, int) js" where
  "count_range 0 it en sz = diverge"
| "count_range (Suc fuel) it en sz =
     bnd (it_equals it en) (\<lambda>stop.
     if stop then ret sz
     else bnd (it_next it) (\<lambda>it'. count_range fuel it' en (sz + 1)))"

definition erase_by_range :: "nat \<Rightarrow> ref \<Rightarrow> ref option \<Rightarrow> ref option \<Rightarrow> ('a, ref option) js" where
  "erase_by_range fuel this begin en =
     bnd (get_source begin) (\<lambda>src.
     bnd (if this \<noteq> src then ret True
          else bnd (get_source begin) (\<lambda>src1. bnd (get_source en) (\<lambda>src2. ret (src1 \<noteq> src2)))) (\<lambda>foreign.
     if foreign then throw InvalidArgument
     else
     bnd (it_prev begin) (\<lambda>prev.
     bnd (count_range fuel begin en 0) (\<lambda>sz.
     bnd (setNext prev en) (\<lambda>_.
     bnd (setPrev en prev) (\<lambda>_.
     bnd (add_size this (- sz)) (\<lambda>_.
     bnd (this_size this) (\<lambda>s.
     bnd (if s = Some 0 then set_begin this en else ret ()) (\<lambda>_.
     ret en)))))))))"

definition erase_by_iterator :: "nat \<Rightarrow> ref \<Rightarrow> ref option \<Rightarrow> ('a, ref option) js" where
  "erase_by_iterator fuel this it = bnd (it_next it) (\<lambda>nx. erase_by_range fuel this it nx)"

datatype erase_args = EraseAt "ref option" | EraseRange "ref option" "ref option"

fun List_erase :: "nat \<Rightarrow> ref \<Rightarrow> erase_args \<Rightarrow> ('a, ref option) js" where
  "List_erase fuel this (EraseAt position) = erase_by_iterator fuel this position"
| "List_erase fuel this (EraseRange begin en) = erase_by_range fuel this begin en"

subsection \<open>List: constructor and assign\<close>

text \<open>The two overloads of \<open>assign\<close>.  An argument that is \<open>null\<close> is no
  instance of \<open>Iterator\<close>.\<close>
datatype 'a assign_args =
    AssignFill int 'a
  | AssignRange "ref option" "ref option"

text \<open>The \<open>while (true)\<close> loop of \<open>assign\<close>; \<open>==\<close> and \<open>!=\<close> on iterators
  compare identities.  The source range may belong to any container: \<open>val\<close> and
  \<open>nxt\<close> are the \<open>value\<close> and \<open>next()\<close> of its iterators.  The local
  \<open>prev\<close> is initialised to \<open>null\<close> and the loop never assigns it, so it is passed
  on unchanged.\<close>
fun assign_items ::
  "nat \<Rightarrow> ('it \<Rightarrow> ('a, 'a option) js) \<Rightarrow> ('it \<Rightarrow> ('a, 'it) js) \<Rightarrow>
   ref \<Rightarrow> 'it \<Rightarrow> 'it \<Rightarrow> 'it \<Rightarrow> ref option \<Rightarrow> ('a, unit) js" where
  "assign_items 0 val nxt this begin en it prev = diverge"
| "assign_items (Suc fuel) val nxt this begin en it prev =
     bnd (if it \<noteq> en then val it else ret None) (\<lambda>v.
     bnd (new_ListIterator this prev None v) (\<lambda>item.
     bnd (if prev \<noteq> None then setNext prev item else ret ()) (\<lambda>_.
     bnd (if it = begin then bnd (set_begin this item) (\<lambda>_. ret False)
          else if it = en then bnd (set_end this item) (\<lambda>_. ret True)
          else ret False) (\<lambda>stop.
     if stop then ret ()
     else
     bnd (add_size this 1) (\<lambda>_.
     bnd (nxt it) (\<lambda>it'.
     assign_items fuel val nxt this begin en it' prev))))))"

fun List_assign :: "nat \<Rightarrow> ref \<Rightarrow> 'a assign_args \<Rightarrow> ('a, unit) js" where
  "List_assign fuel this (AssignRange begin en) =
     (if begin \<noteq> None \<and> en \<noteq> None
      then assign_items fuel it_value it_next this begin en begin None
      else ret ())"
| "List_assign fuel this (AssignFill n val) = ret ()"

text \<open>The five overloads of the constructor.  The constructor of the base class is
  called without arguments and assigns no field of the list.\<close>
datatype 'a constructor_args =
    NoArgs
  | FromArray "'a list"
  | FromContainer ref
  | FromRange "ref option" "ref option"
  | Fill int 'a

fun List_constructor :: "nat \<Rightarrow> ref \<Rightarrow> 'a constructor_args \<Rightarrow> ('a, unit) js" where
  "List_constructor fuel this NoArgs = List_clear this"
| "List_constructor fuel this (FromArray array) =
     bnd (List_clear this) (\<lambda>_. bnd (List_push this array) (\<lambda>_. ret ()))"
| "List_constructor fuel this (FromContainer container) =
     bnd (List_begin container) (\<lambda>b.
     bnd (List_end container) (\<lambda>e.
     List_assign fuel this (AssignRange b e)))"
| "List_constructor fuel this (FromRange begin en) =
     (if begin \<noteq> None \<and> en \<noteq> None then List_assign fuel this (AssignRange begin en)
      else ret ())"
| "List_constructor fuel this (Fill n val) = List_assign fuel this (AssignFill n val)"

subsection \<open>List: unique, splice, merge\<close>

text \<open>The library's \<open>std.equals\<close> on two element slots is structural equality.\<close>
definition std_equals :: "'a option \<Rightarrow> 'a option \<Rightarrow> bool" where
  "std_equals x y = (x = y)"

fun unique_loop :: "nat \<Rightarrow> ref \<Rightarrow> ref option \<Rightarrow> ('a, unit) js" where
  "unique_loop 0 this it = diverge"
| "unique_loop (Suc fuel) this it =
     bnd (List_end this) (\<lambda>e.
     bnd (it_equals it e) (\<lambda>stop.
     if stop then ret ()
     else
     bnd (it_value it) (\<lambda>v.
     bnd (it_prev it) (\<lambda>p.
     bnd (it_value p) (\<lambda>pv.
     if std_equals v pv
     then bnd (List_erase fuel this (EraseAt it)) (\<lambda>it'. unique_loop fuel this it')
     else bnd (it_next it) (\<lambda>it'. unique_loop fuel this it'))))))"

text \<open>The parameter \<open>binary_pred\<close> is declared and never used in the body.\<close>
definition List_unique ::
  "nat \<Rightarrow> ref \<Rightarrow> ('a option \<Rightarrow> 'a option \<Rightarrow> bool) \<Rightarrow> ('a, unit) js" where
  "List_unique fuel this binary_pred =
     bnd (List_begin this) (\<lambda>b.
     bnd (it_next b) (\<lambda>it.
     unique_loop fuel this it))"

text \<open>\<open>splice(position, obj, begin = null, end = null)\<close>.\<close>
definition List_splice ::
  "nat \<Rightarrow> ref \<Rightarrow> ref option \<Rightarrow> ref \<Rightarrow> ref option \<Rightarrow> ref option \<Rightarrow> ('a, unit) js" where
  "List_splice fuel this position obj begin en =
     bnd (if begin = None
          then bnd (List_begin obj) (\<lambda>b. bnd (List_end obj) (\<lambda>e. ret (b, e)))
          else if en = None
          then bnd (it_next begin) (\<lambda>e. ret (begin, e))
          else ret (begin, en)) (\<lambda>(b, e).
     bnd (List_insert fuel this (InsertRange position b e)) (\<lambda>_.
     bnd (List_erase fuel obj (EraseRange b e)) (\<lambda>_.
     ret ())))"

text \<open>The inner loop of \<open>merge\<close>: it steps \<open>it\<close> forward while it is not the end and
  its element goes before the one of \<open>begin\<close>.\<close>
fun merge_advance ::
  "nat \<Rightarrow> ref \<Rightarrow> ('a option \<Rightarrow> 'a option \<Rightarrow> bool) \<Rightarrow> ref option \<Rightarrow> ref option \<Rightarrow>
   ('a, ref option) js" where
  "merge_advance 0 this compare it begin = diverge"
| "merge_advance (Suc fuel) this compare it begin =
     bnd (List_end this) (\<lambda>e.
     bnd (it_equals it e) (\<lambda>at_end.
     if at_end then ret it
     else
     bnd (it_value it) (\<lambda>v.
     bnd (it_value begin) (\<lambda>bv.
     if compare v bv
     then bnd (it_next it) (\<lambda>it'. merge_advance fuel this compare it' begin)
     else ret it))))"

fun merge_loop ::
  "nat \<Rightarrow> ref \<Rightarrow> ref \<Rightarrow> ('a option \<Rightarrow> 'a option \<Rightarrow> bool) \<Rightarrow> ref option \<Rightarrow> ('a, unit) js" where
  "merge_loop 0 this obj compare it = diverge"
| "merge_loop (Suc fuel) this obj compare it =
     bnd (List_empty obj) (\<lambda>emp.
     if emp then ret ()
     else
     bnd (List_begin obj) (\<lambda>begin.
     bnd (merge_advance fuel this compare it begin) (\<lambda>it'.
     bnd (List_splice fuel this it' obj begin None) (\<lambda>_.
     merge_loop fuel this obj compare it'))))"

definition List_merge ::
  "nat \<Rightarrow> ref \<Rightarrow> ref \<Rightarrow> ('a option \<Rightarrow> 'a option \<Rightarrow> bool) \<Rightarrow> ('a, unit) js" where
  "List_merge fuel this obj compare =
     (if this = obj then ret ()
      else bnd (List_begin this) (\<lambda>it. merge_loop fuel this obj compare it))"

subsection \<open>List: sort\<close>

text \<open>
  \<open>sort\<close> copies the list into a \<open>Vector\<close>, calls the library's \<open>sort\<close> on the
  range of the vector, and assigns the range of the vector to the list.  The class
  \<open>Vector\<close>, its iterators and the library's \<open>sort\<close> are not among the sources:
  they are parameters, each a method on the store.  \<open>std_sort\<close> is the library's
  \<open>sort(first, last)\<close> as it is called here, with two arguments.
\<close>
record ('a, 'vec, 'vit) Library =
  new_Vector :: "ref option \<Rightarrow> ref option \<Rightarrow> ('a, 'vec) js"
  Vector_begin :: "'vec \<Rightarrow> ('a, 'vit) js"
  Vector_end :: "'vec \<Rightarrow> ('a, 'vit) js"
  std_sort :: "'vit \<Rightarrow> 'vit \<Rightarrow> ('a, unit) js"
  vit_value :: "'vit \<Rightarrow> ('a, 'a option) js"
  vit_next :: "'vit \<Rightarrow> ('a, 'vit) js"

definition List_sort ::
  "('a, 'vec, 'vit) Library \<Rightarrow> nat \<Rightarrow> ref \<Rightarrow> ('a option \<Rightarrow> 'a option \<Rightarrow> bool) \<Rightarrow> ('a, unit) js" where
  "List_sort L fuel this compare =
     bnd (List_begin this) (\<lambda>b.
     bnd (List_end this) (\<lambda>e.
     bnd (new_Vector L b e) (\<lambda>vector.
     bnd (Vector_begin L vector) (\<lambda>first.
     bnd (Vector_end L vector) (\<lambda>last.
     bnd (std_sort L first last) (\<lambda>_.
     bnd (Vector_begin L vector) (\<lambda>vb.
     bnd (Vector_end L vector) (\<lambda>ve.
     assign_items fuel (vit_value L) (vit_next L) this vb ve vb None))))))))"

section \<open>Observing a list\<close>

text \<open>The elements of a list, as a walk from \<open>begin()\<close> to \<open>end()\<close> along \<open>next()\<close>
  reads them.  The walk visits each node of the store at most once before it either
  arrives or repeats, so the number of nodes bounds it.\<close>
fun walk :: "nat \<Rightarrow> 'a heap \<Rightarrow> ref option \<Rightarrow> ref option \<Rightarrow> 'a option list option" where
  "walk 0 h it en = (if it = en then Some [] else None)"
| "walk (Suc fuel) h it en =
     (if it = en then Some []
      else case deref h it of
             None \<Rightarrow> None
           | Some n \<Rightarrow> map_option (\<lambda>vs. m_value n # vs) (walk fuel h (m_next n) en))"

definition elements :: "'a heap \<Rightarrow> ref \<Rightarrow> 'a option list option" where
  "elements h this =
     walk (length (iterators h)) h (m_begin (containers h this)) (m_end (containers h this))"

text \<open>The store before any object is constructed: no node, and every list object with
  its fields unassigned.\<close>
definition empty_heap :: "'a heap" where
  "empty_heap =
     \<lparr>iterators = [], containers = (\<lambda>_. \<lparr>m_begin = None, m_end = None, m_size = None\<rparr>)\<rparr>"

text \<open>The store a run leaves when it returns normally.\<close>
definition run :: "('a, 'r) js \<Rightarrow> 'a heap \<Rightarrow> 'a heap option" where
  "run m h = (case m h of Some (h', Inr r) \<Rightarrow> Some h' | _ \<Rightarrow> None)"

text \<open>Two lists in one store: list \<open>0\<close> holds \<open>[1]\<close> (sentinel \<open>0\<close>, node \<open>1\<close>), list
  \<open>1\<close> holds \<open>[2]\<close> (sentinel \<open>2\<close>, node \<open>3\<close>).\<close>
definition two_lists :: "int heap" where
  "two_lists =
     \<lparr>iterators =
        [\<lparr>m_source = 0, m_prev = Some 1, m_next = Some 1, m_value = None\<rparr>,
         \<lparr>m_source = 0, m_prev = Some 0, m_next = Some 0, m_value = Some 1\<rparr>,
         \<lparr>m_source = 1, m_prev = Some 3, m_next = Some 3, m_value = None\<rparr>,
         \<lparr>m_source = 1, m_prev = Some 2, m_next = Some 2, m_value = Some 2\<rparr>],
      containers =
        (\<lambda>_. \<lparr>m_begin = None, m_end = None, m_size = None\<rparr>)
          (0 := \<lparr>m_begin = Some 1, m_end = Some 0, m_size = Some 1\<rparr>,
           1 := \<lparr>m_begin = Some 3, m_end = Some 2, m_size = Some 1\<rparr>)\<rparr>"

text \<open>The nodes a walk along \<open>next()\<close> visits from \<open>it\<close> until it arrives at
  \<open>en\<close>.\<close>
fun chain :: "nat \<Rightarrow> 'a heap \<Rightarrow> ref option \<Rightarrow> ref option \<Rightarrow> ref list option" where
  "chain 0 h it en = (if it = en then Some [] else None)"
| "chain (Suc fuel) h it en =
     (if it = en then Some []
      else case it of
             None \<Rightarrow> None
           | Some a \<Rightarrow>
               (case deref h it of
                  None \<Rightarrow> None
                | Some n \<Rightarrow> map_option (\<lambda>as. a # as) (chain fuel h (m_next n) en)))"

definition next_of :: "'a heap \<Rightarrow> ref option \<Rightarrow> ref option" where
  "next_of h it = (case deref h it of None \<Rightarrow> None | Some n \<Rightarrow> m_next n)"

definition prev_of :: "'a heap \<Rightarrow> ref option \<Rightarrow> ref option" where
  "prev_of h it = (case deref h it of None \<Rightarrow> None | Some n \<Rightarrow> m_prev n)"

text \<open>The circular-chain invariant of the specification: the sentinel \<open>end()\<close> is a
  node, its \<open>next\<close> is \<open>begin()\<close>, the first real node (the sentinel itself when
  the list is empty), its \<open>prev\<close> is the last real node (itself when empty), and
  \<open>node.next.prev == node\<close> for the sentinel and for every node of the chain.\<close>
definition circular_chain :: "'a heap \<Rightarrow> ref \<Rightarrow> bool" where
  "circular_chain h this =
     (case m_end (containers h this) of
        None \<Rightarrow> False
      | Some e \<Rightarrow>
          (case deref h (Some e) of
             None \<Rightarrow> False
           | Some s \<Rightarrow>
               (case chain (length (iterators h)) h (m_next s) (Some e) of
                  None \<Rightarrow> False
                | Some ns \<Rightarrow>
                    m_next s = m_begin (containers h this) \<and>
                    m_prev s = Some (last (e # ns)) \<and>
                    list_all (\<lambda>a. prev_of h (next_of h (Some a)) = Some a) (e # ns))))"

text \<open>Modelled from the spec: the library's default comparator \<open>std.less\<close> is the
  total order of the elements; an empty slot goes before nothing.\<close>
definition std_less :: "('a::linorder) option \<Rightarrow> 'a option \<Rightarrow> bool" where
  "std_less x y = (case x of None \<Rightarrow> False | Some a \<Rightarrow> (case y of None \<Rightarrow> False | Some b \<Rightarrow> a < b))"

text \<open>A comparator on pairs that orders by the first component only, and an
  equivalence on integers.\<close>
definition less_first :: "(int \<times> string) option \<Rightarrow> (int \<times> string) option \<Rightarrow> bool" where
  "less_first x y =
     (case x of None \<Rightarrow> False | Some a \<Rightarrow> (case y of None \<Rightarrow> False | Some b \<Rightarrow> fst a < fst b))"

definition same_parity :: "int option \<Rightarrow> int option \<Rightarrow> bool" where
  "same_parity x y =
     (case x of None \<Rightarrow> y = None | Some a \<Rightarrow> (case y of None \<Rightarrow> False | Some b \<Rightarrow> a mod 2 = b mod 2))"

section \<open>MapIterator\<close>

text \<open>A \<open>MapIterator\<close> pairs the map that made it with an iterator of the map's list
  of pairs.  Two of them are only ever compared through \<open>equals\<close> or through their
  keys, so the model keeps them as values.\<close>
record MapIterator =
  mi_source :: ref
  listIterator :: "ref option"

definition MapIterator_next :: "MapIterator \<Rightarrow> ('a, MapIterator) js" where
  "MapIterator_next it =
     bnd (it_next (listIterator it)) (\<lambda>n. ret \<lparr>mi_source = mi_source it, listIterator = n\<rparr>)"

definition MapIterator_prev :: "MapIterator \<Rightarrow> ('a, MapIterator) js" where
  "MapIterator_prev it =
     bnd (it_prev (listIterator it)) (\<lambda>n. ret \<lparr>mi_source = mi_source it, listIterator = n\<rparr>)"

definition MapIterator_equals :: "MapIterator \<Rightarrow> MapIterator \<Rightarrow> ('a, bool) js" where
  "MapIterator_equals it obj =
     (if mi_source it = mi_source obj then it_equals (listIterator it) (listIterator obj)
      else ret False)"

text \<open>The getters \<open>first\<close> and \<open>second\<close> read \<open>listIterator.value\<close>; on a node
  without an element (the sentinel) the read of a component is a \<open>TypeError\<close>.\<close>
definition MapIterator_first :: "MapIterator \<Rightarrow> ('k \<times> 'v, 'k) js" where
  "MapIterator_first it =
     bnd (it_value (listIterator it)) (\<lambda>v.
     case v of None \<Rightarrow> throw TypeError | Some p \<Rightarrow> ret (fst p))"

definition MapIterator_second :: "MapIterator \<Rightarrow> ('k \<times> 'v, 'v) js" where
  "MapIterator_second it =
     bnd (it_value (listIterator it)) (\<lambda>v.
     case v of None \<Rightarrow> throw TypeError | Some p \<Rightarrow> ret (snd p))"

section \<open>The base map container\<close>

text \<open>
  The base class of the maps is not among the sources.  Modelled from the spec: a map
  owns one list of pairs, \<open>data\<close>; its \<open>size()\<close>, \<open>begin()\<close> and \<open>end()\<close>
  are those of the list, and its constructor makes the list.  The state of a map is the
  store together with the fields of the map object; a map class adds its index to the
  fields.
\<close>
record ('k, 'v) MapContainer =
  store :: "('k \<times> 'v) heap"
  data :: ref

type_synonym ('k, 'v, 'z, 'r) mapc = "(('k, 'v, 'z) MapContainer_scheme, 'r) action"

text \<open>A method of the list \<open>data\<close>, run on the store of the map.\<close>
definition on_data :: "(ref \<Rightarrow> ('k \<times> 'v, 'r) js) \<Rightarrow> ('k, 'v, 'z, 'r) mapc" where
  "on_data f w =
     (case f (data w) (store w) of
        None \<Rightarrow> None
      | Some (h', r) \<Rightarrow> Some (w\<lparr>store := h'\<rparr>, r))"

text \<open>A method of an iterator, run on the store of the map.\<close>
definition on_store :: "('k \<times> 'v, 'r) js \<Rightarrow> ('k, 'v, 'z, 'r) mapc" where
  "on_store f = on_data (\<lambda>_. f)"

definition map_size :: "('k, 'v, 'z, int option) mapc" where
  "map_size = on_data List_size"

definition map_begin :: "ref \<Rightarrow> ('k, 'v, 'z, MapIterator) mapc" where
  "map_begin this = bnd (on_data List_begin) (\<lambda>b. ret \<lparr>mi_source = this, listIterator = b\<rparr>)"

definition map_end :: "ref \<Rightarrow> ('k, 'v, 'z, MapIterator) mapc" where
  "map_end this = bnd (on_data List_end) (\<lambda>e. ret \<lparr>mi_source = this, listIterator = e\<rparr>)"

section \<open>UnorderedMultiMap\<close>

text \<open>
  A hash multimap adds the bucket table \<open>hashGroup\<close>.  The vectors of the table are
  lists; \<open>at\<close> outside the range is an exception.

  The constants \<open>Hash.MIN_SIZE\<close> and \<open>Hash.RATIO\<close> and the hash function
  \<open>Hash.code\<close> are not among the sources: they are parameters.
\<close>
record ('k, 'v) UnorderedMultiMap = "('k, 'v) MapContainer" +
  hashGroup :: "MapIterator list list"

record 'k Hash =
  MIN_SIZE :: int
  RATIO :: int
  hash_code :: "'k \<Rightarrow> nat"

type_synonym ('k, 'v, 'r) umm = "(('k, 'v) UnorderedMultiMap, 'r) action"

definition group_size :: "('k, 'v, nat) umm" where
  "group_size w = ret (length (hashGroup w)) w"

text \<open>\<open>constructHashGroup(size)\<close>; a size that is not a number is \<open>None\<close>, and every
  comparison with it is false.\<close>
definition constructHashGroup :: "'k Hash \<Rightarrow> int option \<Rightarrow> ('k, 'v, unit) umm" where
  "constructHashGroup H sz w =
     (let sz' = (case sz of None \<Rightarrow> None
                 | Some n \<Rightarrow> if n < MIN_SIZE H then Some (MIN_SIZE H) else Some n)
      in ret () (w\<lparr>hashGroup := replicate (case sz' of None \<Rightarrow> 0 | Some n \<Rightarrow> nat n) []\<rparr>))"

definition hashIndex :: "'k Hash \<Rightarrow> 'k \<Rightarrow> ('k, 'v, nat) umm" where
  "hashIndex H val =
     bnd group_size (\<lambda>n. if n = 0 then throw OutOfRange else ret (hash_code H val mod n))"

definition group_at :: "nat \<Rightarrow> ('k, 'v, MapIterator list) umm" where
  "group_at i w = (if i < length (hashGroup w) then ret (hashGroup w ! i) w else throw OutOfRange w)"

definition group_set :: "nat \<Rightarrow> MapIterator list \<Rightarrow> ('k, 'v, unit) umm" where
  "group_set i b w =
     (if i < length (hashGroup w) then ret () (w\<lparr>hashGroup := (hashGroup w)[i := b]\<rparr>)
      else throw OutOfRange w)"

fun handleInsert :: "nat \<Rightarrow> 'k Hash \<Rightarrow> ref \<Rightarrow> MapIterator \<Rightarrow> ('k, 'v, unit) umm"
  and reconstructHashGroup :: "nat \<Rightarrow> 'k Hash \<Rightarrow> ref \<Rightarrow> int option \<Rightarrow> ('k, 'v, unit) umm"
  and reconstruct_items :: "nat \<Rightarrow> 'k Hash \<Rightarrow> ref \<Rightarrow> MapIterator \<Rightarrow> ('k, 'v, unit) umm"
where
  "handleInsert 0 H this it = diverge"
| "handleInsert (Suc fuel) H this it =
     bnd group_size (\<lambda>n.
     bnd map_size (\<lambda>s.
     bnd (if (case s of None \<Rightarrow> False | Some k \<Rightarrow> int n > k * 2)
          then reconstructHashGroup fuel H this (Some (- 1))
          else ret ()) (\<lambda>_.
     bnd (on_store (MapIterator_first it)) (\<lambda>key.
     bnd (hashIndex H key) (\<lambda>i.
     bnd (group_at i) (\<lambda>b.
     group_set i (b @ [it])))))))"
| "reconstructHashGroup 0 H this sz = diverge"
| "reconstructHashGroup (Suc fuel) H this sz =
     bnd (if sz = Some (- 1)
          then bnd map_size (\<lambda>s. ret (map_option (\<lambda>k. k * RATIO H) s))
          else ret sz) (\<lambda>sz'.
     bnd (constructHashGroup H sz') (\<lambda>_.
     bnd (map_begin this) (\<lambda>b.
     reconstruct_items fuel H this b)))"
| "reconstruct_items 0 H this it = diverge"
| "reconstruct_items (Suc fuel) H this it =
     bnd (map_end this) (\<lambda>e.
     bnd (on_store (MapIterator_equals it e)) (\<lambda>stop.
     if stop then ret ()
     else
     bnd (handleInsert fuel H this it) (\<lambda>_.
     bnd (on_store (MapIterator_next it)) (\<lambda>it'.
     reconstruct_items fuel H this it'))))"

text \<open>The scan of \<open>find\<close> through one bucket.\<close>
fun find_scan :: "'k \<Rightarrow> MapIterator list \<Rightarrow> ('k, 'v, MapIterator option) umm" where
  "find_scan key [] = ret None"
| "find_scan key (x # xs) =
     bnd (on_store (MapIterator_first x)) (\<lambda>k.
     if k = key then ret (Some x) else find_scan key xs)"

definition umm_find :: "'k Hash \<Rightarrow> ref \<Rightarrow> 'k \<Rightarrow> ('k, 'v, MapIterator) umm" where
  "umm_find H this key =
     bnd (hashIndex H key) (\<lambda>i.
     bnd (group_at i) (\<lambda>hashArray.
     bnd (find_scan key hashArray) (\<lambda>r.
     case r of Some x \<Rightarrow> ret x | None \<Rightarrow> map_end this)))"

definition umm_insertByPair ::
  "nat \<Rightarrow> 'k Hash \<Rightarrow> ref \<Rightarrow> 'k \<times> 'v \<Rightarrow> ('k, 'v, MapIterator) umm" where
  "umm_insertByPair fuel H this pair =
     bnd (on_data List_end) (\<lambda>e.
     bnd (on_data (\<lambda>d. List_insert fuel d (InsertVal e pair))) (\<lambda>li.
     bnd (handleInsert fuel H this \<lparr>mi_source = this, listIterator = li\<rparr>) (\<lambda>_.
     ret \<lparr>mi_source = this, listIterator = li\<rparr>)))"

text \<open>The scan of \<open>handleErase\<close>: the index of the first handle of the bucket whose
  key equals the key of \<open>it\<close>.\<close>
fun erase_scan :: "MapIterator \<Rightarrow> MapIterator list \<Rightarrow> nat \<Rightarrow> ('k, 'v, nat option) umm" where
  "erase_scan it [] i = ret None"
| "erase_scan it (x # xs) i =
     bnd (on_store (MapIterator_first it)) (\<lambda>k.
     bnd (on_store (MapIterator_first x)) (\<lambda>k'.
     if k = k' then ret (Some i) else erase_scan it xs (i + 1)))"

definition handleErase :: "'k Hash \<Rightarrow> MapIterator \<Rightarrow> ('k, 'v, unit) umm" where
  "handleErase H it =
     bnd (on_store (MapIterator_first it)) (\<lambda>key.
     bnd (hashIndex H key) (\<lambda>i.
     bnd (group_at i) (\<lambda>hashVector.
     bnd (erase_scan it hashVector 0) (\<lambda>r.
     case r of
       None \<Rightarrow> ret ()
     | Some j \<Rightarrow> group_set i (take j hashVector @ drop (Suc j) hashVector)))))"

text \<open>Modelled from the spec: \<open>clear()\<close> of the base map container empties the list
  of pairs.\<close>
definition umm_clear :: "'k Hash \<Rightarrow> ('k, 'v, unit) umm" where
  "umm_clear H = bnd (on_data List_clear) (\<lambda>_. constructHashGroup H (Some (- 1)))"

text \<open>The statements of the constructor before its overloads: the constructor of the
  base class makes the list of pairs, the map's own then builds the table.  The map and
  its list are new objects, \<open>d\<close> is the identity of the list.\<close>
definition umm_constructor :: "'k Hash \<Rightarrow> ref \<Rightarrow> ('k \<times> 'v) heap \<Rightarrow> (('k, 'v) UnorderedMultiMap \<times> (error + unit)) option" where
  "umm_constructor H d h =
     bnd (on_data (\<lambda>d. List_constructor 0 d NoArgs)) (\<lambda>_. constructHashGroup H (Some (- 1)))
       \<lparr>store = h, data = d, hashGroup = []\<rparr>"

text \<open>Modelled from the spec: \<open>erase(position)\<close> of the base map container removes the
  node from the list of pairs first, then the matching entry from the index.\<close>
definition umm_erase :: "nat \<Rightarrow> 'k Hash \<Rightarrow> MapIterator \<Rightarrow> ('k, 'v, unit) umm" where
  "umm_erase fuel H it =
     bnd (on_data (\<lambda>d. List_erase fuel d (EraseAt (listIterator it)))) (\<lambda>_. handleErase H it)"

text \<open>The handles in the buckets of the table, and the nodes that a walk of the list of
  pairs visits.\<close>
definition bucket_nodes :: "('k, 'v) UnorderedMultiMap \<Rightarrow> ref option list list" where
  "bucket_nodes w = map (map listIterator) (hashGroup w)"

definition live_nodes :: "('k, 'v) UnorderedMultiMap \<Rightarrow> ref list option" where
  "live_nodes w =
     chain (length (iterators (store w))) (store w)
       (m_begin (containers (store w) (data w))) (m_end (containers (store w) (data w)))"

text \<open>The counting loop of \<open>assign\<close> and of \<open>insertByRange\<close>.\<close>
fun count_pairs :: "nat \<Rightarrow> MapIterator \<Rightarrow> MapIterator \<Rightarrow> int \<Rightarrow> ('k, 'v, int) umm" where
  "count_pairs 0 it en sz = diverge"
| "count_pairs (Suc fuel) it en sz =
     bnd (on_store (MapIterator_equals it en)) (\<lambda>stop.
     if stop then ret sz
     else bnd (on_store (MapIterator_next it)) (\<lambda>it'. count_pairs fuel it' en (sz + 1)))"

text \<open>Modelled from the spec: the range operations of the base map container insert
  the pairs of the source range one by one, in its order, through \<open>insertByPair\<close>;
  \<open>constructByArray\<close> does the same with the pairs of an array.\<close>
fun insert_pairs ::
  "nat \<Rightarrow> 'k Hash \<Rightarrow> ref \<Rightarrow> MapIterator \<Rightarrow> MapIterator \<Rightarrow> ('k, 'v, unit) umm" where
  "insert_pairs 0 H this it en = diverge"
| "insert_pairs (Suc fuel) H this it en =
     bnd (on_store (MapIterator_equals it en)) (\<lambda>stop.
     if stop then ret ()
     else
     bnd (on_store (MapIterator_first it)) (\<lambda>k.
     bnd (on_store (MapIterator_second it)) (\<lambda>v.
     bnd (umm_insertByPair fuel H this (k, v)) (\<lambda>_.
     bnd (on_store (MapIterator_next it)) (\<lambda>it'.
     insert_pairs fuel H this it' en)))))"

primrec insert_array :: "nat \<Rightarrow> 'k Hash \<Rightarrow> ref \<Rightarrow> ('k \<times> 'v) list \<Rightarrow> ('k, 'v, unit) umm" where
  "insert_array fuel H this [] = ret ()"
| "insert_array fuel H this (x # xs) =
     bnd (umm_insertByPair fuel H this x) (\<lambda>_. insert_array fuel H this xs)"

text \<open>\<open>insertByRange\<close>: the count of the range, the rebuild of the table when it is too
  small for the elements to come, then the insertion of the base class.\<close>
definition umm_insertByRange ::
  "nat \<Rightarrow> 'k Hash \<Rightarrow> ref \<Rightarrow> MapIterator \<Rightarrow> MapIterator \<Rightarrow> ('k, 'v, unit) umm" where
  "umm_insertByRange fuel H this begin en =
     bnd (count_pairs fuel begin en 0) (\<lambda>sz.
     bnd map_size (\<lambda>s.
     bnd group_size (\<lambda>n.
     bnd (if (case s of None \<Rightarrow> False | Some k \<Rightarrow> k + sz > int n * 2)
          then reconstructHashGroup fuel H this (map_option (\<lambda>k. (k + sz) * RATIO H) s)
          else ret ()) (\<lambda>_.
     insert_pairs fuel H this begin en))))"

text \<open>\<open>assign\<close>: the count of the range, a new table of that size, then the \<open>assign\<close>
  of the base class.  Modelled from the spec: the base class discards the nodes of the
  list of pairs and inserts the pairs of the range.\<close>
definition umm_assign ::
  "nat \<Rightarrow> 'k Hash \<Rightarrow> ref \<Rightarrow> MapIterator \<Rightarrow> MapIterator \<Rightarrow> ('k, 'v, unit) umm" where
  "umm_assign fuel H this begin en =
     bnd (count_pairs fuel begin en 0) (\<lambda>sz.
     bnd (constructHashGroup H (Some (sz * RATIO H))) (\<lambda>_.
     bnd (on_data List_clear) (\<lambda>_.
     insert_pairs fuel H this begin en)))"

definition constructByArray ::
  "nat \<Rightarrow> 'k Hash \<Rightarrow> ref \<Rightarrow> ('k \<times> 'v) list \<Rightarrow> ('k, 'v, unit) umm" where
  "constructByArray fuel H this items =
     bnd (constructHashGroup H (Some (int (length items) * RATIO H))) (\<lambda>_.
     insert_array fuel H this items)"

text \<open>The four overloads of the constructor.  Another map is given by its identity and
  the identity of its list of pairs.  Modelled from the spec: \<open>constructByRange\<close> of
  the base class assigns the range, \<open>constructByContainer\<close> the range from
  \<open>begin()\<close> to \<open>end()\<close> of the container.\<close>
datatype ('k, 'v) umm_args =
    UNoArgs
  | UFromArray "('k \<times> 'v) list"
  | UFromContainer ref ref
  | UFromRange MapIterator MapIterator

fun umm_overload :: "nat \<Rightarrow> 'k Hash \<Rightarrow> ref \<Rightarrow> ('k, 'v) umm_args \<Rightarrow> ('k, 'v, unit) umm" where
  "umm_overload fuel H this UNoArgs = ret ()"
| "umm_overload fuel H this (UFromArray items) = constructByArray fuel H this items"
| "umm_overload fuel H this (UFromContainer c cd) =
     bnd (on_store (List_begin cd)) (\<lambda>b.
     bnd (on_store (List_end cd)) (\<lambda>e.
     umm_assign fuel H this \<lparr>mi_source = c, listIterator = b\<rparr> \<lparr>mi_source = c, listIterator = e\<rparr>))"
| "umm_overload fuel H this (UFromRange begin en) = umm_assign fuel H this begin en"

text \<open>A session with one map: its construction, then a sequence of public operations.
  An exception ends the session.\<close>
datatype ('k, 'v) umm_op =
    Insert "'k \<times> 'v"
  | Erase MapIterator
  | Clear
  | InsertByRange MapIterator MapIterator
  | Assign MapIterator MapIterator

fun umm_apply :: "nat \<Rightarrow> 'k Hash \<Rightarrow> ref \<Rightarrow> ('k, 'v) umm_op \<Rightarrow> ('k, 'v, unit) umm" where
  "umm_apply fuel H this (Insert pair) = bnd (umm_insertByPair fuel H this pair) (\<lambda>_. ret ())"
| "umm_apply fuel H this (Erase it) = umm_erase fuel H it"
| "umm_apply fuel H this Clear = umm_clear H"
| "umm_apply fuel H this (InsertByRange begin en) = umm_insertByRange fuel H this begin en"
| "umm_apply fuel H this (Assign begin en) = umm_assign fuel H this begin en"

fun umm_run :: "nat \<Rightarrow> 'k Hash \<Rightarrow> ref \<Rightarrow> ('k, 'v) umm_op list \<Rightarrow> ('k, 'v, unit) umm" where
  "umm_run fuel H this [] = ret ()"
| "umm_run fuel H this (x # ops) = bnd (umm_apply fuel H this x) (\<lambda>_. umm_run fuel H this ops)"

definition umm_session ::
  "nat \<Rightarrow> 'k Hash \<Rightarrow> ref \<Rightarrow> ref \<Rightarrow> ('k, 'v) umm_op list \<Rightarrow> ('k \<times> 'v) heap \<Rightarrow>
   (('k, 'v) UnorderedMultiMap \<times> (error + unit)) option" where
  "umm_session fuel H this d ops h =
     (case umm_constructor H d h of
        None \<Rightarrow> None
      | Some (w, Inl e) \<Rightarrow> Some (w, Inl e)
      | Some (w, Inr u) \<Rightarrow> umm_run fuel H this ops w)"

text \<open>The same with any overload of the constructor: the statements of the constructor
  before the overloads, the overload, then the operations.\<close>
definition umm_session_of ::
  "nat \<Rightarrow> 'k Hash \<Rightarrow> ref \<Rightarrow> ref \<Rightarrow> ('k, 'v) umm_args \<Rightarrow> ('k, 'v) umm_op list \<Rightarrow>
   ('k \<times> 'v) heap \<Rightarrow> (('k, 'v) UnorderedMultiMap \<times> (error + unit)) option" where
  "umm_session_of fuel H this d args ops h =
     (case umm_constructor H d h of
        None \<Rightarrow> None
      | Some (w, Inl e) \<Rightarrow> Some (w, Inl e)
      | Some (w, Inr u) \<Rightarrow>
          bnd (umm_overload fuel H this args) (\<lambda>_. umm_run fuel H this ops) w)"

text \<open>The bucket count is at least the policy minimum.\<close>
definition enough_buckets :: "'k Hash \<Rightarrow> ('k, 'v) UnorderedMultiMap \<Rightarrow> bool" where
  "enough_buckets H w = (MIN_SIZE H \<le> int (length (hashGroup w)))"

text \<open>An action keeps a property of the state, whether it returns or throws.\<close>
definition keeps :: "('s \<Rightarrow> bool) \<Rightarrow> ('s, 'r) action \<Rightarrow> bool" where
  "keeps P m = (\<forall>w w' r. P w \<longrightarrow> m w = Some (w', r) \<longrightarrow> P w')"

text \<open>Hash constants for the examples: one bucket at least, and the integer itself as
  its hash code.\<close>
definition small_Hash :: "int Hash" where
  "small_Hash = \<lparr>MIN_SIZE = 1, RATIO = 1, hash_code = (\<lambda>k. nat k)\<rparr>"

text \<open>The same with two and with ten buckets at least, and a store that holds the list
  of pairs of another map: list \<open>1\<close> with the sentinel \<open>0\<close> and the nodes \<open>1\<close> to
  \<open>5\<close>.\<close>
definition pair_Hash :: "int Hash" where
  "pair_Hash = \<lparr>MIN_SIZE = 2, RATIO = 1, hash_code = (\<lambda>k. nat k)\<rparr>"

definition wide_Hash :: "int Hash" where
  "wide_Hash = \<lparr>MIN_SIZE = 10, RATIO = 1, hash_code = (\<lambda>k. nat k)\<rparr>"

definition source_heap :: "(int \<times> string) heap" where
  "source_heap =
     (case run (List_constructor 9 1 (FromArray [(1, ''a''), (2, ''b''), (3, ''c''), (4, ''d''), (5, ''e'')]))
             empty_heap of
        None \<Rightarrow> empty_heap
      | Some h \<Rightarrow> h)"

section \<open>TreeMap\<close>

text \<open>
  A tree map adds the tree of handles.  The tree classes (\<open>XTree\<close>, \<open>PairTree\<close>)
  are not among the sources, except the tree of the sets, \<open>AtomicTree\<close>.  A node
  is \<open>null\<close> or has a left child, a handle and a right child.
\<close>
datatype XTree = XNull | XNode XTree MapIterator XTree

record ('k, 'v) TreeMap = "('k, 'v) MapContainer" +
  tree :: XTree

type_synonym ('k, 'v, 'r) tmap = "(('k, 'v) TreeMap, 'r) action"

text \<open>The library's \<open>std.less\<close> and \<open>std.equals\<close> on keys are the order and the
  equality of the key type.

  \<open>tree.find(key)\<close>.  Modelled on \<open>AtomicTree.findByVal\<close> of the sources, with the
  key of the pair (\<open>node.value.first\<close>) where the tree of a set reads the element:
  the descent stops at a node with an equal key, or at the last node on the way when
  the child to go to is \<open>null\<close>.  The first equation is the empty tree.\<close>
fun tree_find :: "XTree \<Rightarrow> 'k::linorder \<Rightarrow> ('k, 'v, 'z, XTree) mapc" where
  "tree_find XNull key = ret XNull"
| "tree_find (XNode l v r) key =
     bnd (on_store (MapIterator_first v)) (\<lambda>k.
     if key = k then ret (XNode l v r)
     else if key < k then (if l = XNull then ret (XNode l v r) else tree_find l key)
     else (if r = XNull then ret (XNode l v r) else tree_find r key))"

text \<open>Modelled from the spec: \<open>tree.insert(handle)\<close> locates the leaf position by the
  same descent and attaches a new node.  The rebalancing that follows changes the
  shape of the tree and not the order of its entries; it is left out.\<close>
fun tree_insert :: "XTree \<Rightarrow> 'k::linorder \<Rightarrow> MapIterator \<Rightarrow> ('k, 'v, 'z, XTree) mapc" where
  "tree_insert XNull key it = ret (XNode XNull it XNull)"
| "tree_insert (XNode l v r) key it =
     bnd (on_store (MapIterator_first v)) (\<lambda>k.
     if key < k then bnd (tree_insert l key it) (\<lambda>l'. ret (XNode l' v r))
     else bnd (tree_insert r key it) (\<lambda>r'. ret (XNode l v r')))"

definition this_tree :: "('k, 'v, XTree) tmap" where
  "this_tree w = ret (tree w) w"

definition set_tree :: "XTree \<Rightarrow> ('k, 'v, unit) tmap" where
  "set_tree t w = ret () (w\<lparr>tree := t\<rparr>)"

definition node_value :: "XTree \<Rightarrow> ('s, MapIterator) action" where
  "node_value node = (case node of XNull \<Rightarrow> throw TypeError | XNode l v r \<Rightarrow> ret v)"

definition TreeMap_find :: "ref \<Rightarrow> 'k::linorder \<Rightarrow> ('k, 'v, MapIterator) tmap" where
  "TreeMap_find this key =
     bnd this_tree (\<lambda>t.
     bnd (tree_find t key) (\<lambda>node.
     if node = XNull then map_end this
     else
     bnd (node_value node) (\<lambda>v.
     bnd (on_store (MapIterator_first v)) (\<lambda>k.
     if k \<noteq> key then map_end this else ret v))))"

definition lowerBound :: "ref \<Rightarrow> 'k::linorder \<Rightarrow> ('k, 'v, MapIterator) tmap" where
  "lowerBound this key =
     bnd this_tree (\<lambda>t.
     bnd (tree_find t key) (\<lambda>node.
     if node = XNull then map_end this
     else
     bnd (node_value node) (\<lambda>v.
     bnd (on_store (MapIterator_first v)) (\<lambda>k.
     if k < key then on_store (MapIterator_next v) else ret v))))"

definition upperBound :: "ref \<Rightarrow> 'k::linorder \<Rightarrow> ('k, 'v, MapIterator) tmap" where
  "upperBound this key =
     bnd this_tree (\<lambda>t.
     bnd (tree_find t key) (\<lambda>node.
     if node = XNull then map_end this
     else
     bnd (node_value node) (\<lambda>v.
     bnd (on_store (MapIterator_first v)) (\<lambda>k.
     if k \<noteq> key \<and> \<not> k < key then ret v else on_store (MapIterator_next v)))))"

definition equalRange :: "ref \<Rightarrow> 'k::linorder \<Rightarrow> ('k, 'v, MapIterator \<times> MapIterator) tmap" where
  "equalRange this key =
     bnd (lowerBound this key) (\<lambda>lo.
     bnd (upperBound this key) (\<lambda>up.
     ret (lo, up)))"

definition TreeMap_handleInsert :: "MapIterator \<Rightarrow> ('k::linorder, 'v, unit) tmap" where
  "TreeMap_handleInsert item =
     bnd this_tree (\<lambda>t.
     bnd (on_store (MapIterator_first item)) (\<lambda>key.
     bnd (tree_insert t key item) (\<lambda>t'.
     set_tree t')))"

text \<open>Modelled from the spec: \<open>insert(hint, pair)\<close> of the base class splices a new node
  into the list of pairs at the hint, then registers the new handle into the index.\<close>
definition TreeMap_insert_hint ::
  "ref \<Rightarrow> MapIterator \<Rightarrow> 'k \<times> 'v \<Rightarrow> ('k::linorder, 'v, MapIterator) tmap" where
  "TreeMap_insert_hint this it pair =
     bnd (on_data (\<lambda>d. List_insert 0 d (InsertVal (listIterator it) pair))) (\<lambda>li.
     bnd (TreeMap_handleInsert \<lparr>mi_source = this, listIterator = li\<rparr>) (\<lambda>_.
     ret \<lparr>mi_source = this, listIterator = li\<rparr>))"

definition TreeMap_insertByPair ::
  "ref \<Rightarrow> 'k \<times> 'v \<Rightarrow> ('k::linorder, 'v, MapIterator \<times> bool) tmap" where
  "TreeMap_insertByPair this pair =
     bnd this_tree (\<lambda>t.
     bnd (tree_find t (fst pair)) (\<lambda>node.
     bnd (if node \<noteq> XNull
          then bnd (node_value node) (\<lambda>v.
               bnd (on_store (MapIterator_first v)) (\<lambda>k. ret (k = fst pair)))
          else ret False) (\<lambda>present.
     if present then bnd (node_value node) (\<lambda>v. ret (v, False))
     else
     bnd (if node = XNull then map_end this
          else bnd (node_value node) (\<lambda>v.
               bnd (on_store (MapIterator_first v)) (\<lambda>k.
               if k < fst pair then on_store (MapIterator_next v) else ret v))) (\<lambda>it.
     bnd (TreeMap_insert_hint this it pair) (\<lambda>it'.
     ret (it', True))))))"

text \<open>The constructor: the one of the base class makes the list of pairs, the map's
  own then makes an empty tree, whatever its arguments.\<close>
definition TreeMap_constructor ::
  "ref \<Rightarrow> ('k \<times> 'v) heap \<Rightarrow> (('k, 'v) TreeMap \<times> (error + unit)) option" where
  "TreeMap_constructor d h =
     bnd (on_data (\<lambda>d. List_constructor 0 d NoArgs)) (\<lambda>_. set_tree XNull)
       \<lparr>store = h, data = d, tree = XNull\<rparr>"

text \<open>A session with one tree map: its construction, then the insertion of a sequence
  of pairs.\<close>
fun TreeMap_inserts :: "ref \<Rightarrow> ('k \<times> 'v) list \<Rightarrow> ('k::linorder, 'v, unit) tmap" where
  "TreeMap_inserts this [] = ret ()"
| "TreeMap_inserts this (p # ps) =
     bnd (TreeMap_insertByPair this p) (\<lambda>_. TreeMap_inserts this ps)"

definition TreeMap_of ::
  "ref \<Rightarrow> ref \<Rightarrow> ('k \<times> 'v) list \<Rightarrow> (('k::linorder, 'v) TreeMap \<times> (error + unit)) option" where
  "TreeMap_of this d ps =
     (case TreeMap_constructor d empty_heap of
        None \<Rightarrow> None
      | Some (w, Inl e) \<Rightarrow> Some (w, Inl e)
      | Some (w, Inr u) \<Rightarrow> TreeMap_inserts this ps w)"

section \<open>Well-formed lists and tree maps\<close>

text \<open>The handles of a tree from left to right, and the handle a map makes for a
  node.\<close>
fun inorder :: "XTree \<Rightarrow> MapIterator list" where
  "inorder XNull = []"
| "inorder (XNode l v r) = inorder l @ v # inorder r"

definition handle :: "ref \<Rightarrow> ref \<Rightarrow> MapIterator" where
  "handle this a = \<lparr>mi_source = this, listIterator = Some a\<rparr>"

text \<open>
  A list \<open>d\<close> of the store is well formed with sentinel \<open>e\<close> and nodes \<open>ns\<close>
  (in order) when \<open>end_\<close> is \<open>e\<close>, \<open>begin_\<close> is the first node (\<open>e\<close> when
  there is none), \<open>size_\<close> is the number of nodes, the nodes and the sentinel are
  distinct objects made by \<open>d\<close>, and \<open>next\<close> and \<open>prev\<close> link them in a circle.
\<close>
definition wf_list :: "'a heap \<Rightarrow> ref \<Rightarrow> ref \<Rightarrow> ref list \<Rightarrow> bool" where
  "wf_list h d e ns =
     (m_end (containers h d) = Some e \<and>
      m_begin (containers h d) = Some (hd (ns @ [e])) \<and>
      m_size (containers h d) = Some (int (length ns)) \<and>
      distinct (e # ns) \<and>
      map (\<lambda>a. next_of h (Some a)) (e # ns) = map Some (ns @ [e]) \<and>
      map (\<lambda>a. prev_of h (Some a)) (ns @ [e]) = map Some (e # ns) \<and>
      map (\<lambda>a. map_option m_source (deref h (Some a))) (e # ns) = map (\<lambda>a. Some d) (e # ns))"

text \<open>
  A tree map is well formed with content \<open>ps\<close> when its list of pairs is well formed,
  its nodes hold the pairs \<open>ps\<close>, the keys increase strictly along the list, and the
  tree holds the handles of the nodes in the same order from left to right.
\<close>
definition wf_TreeMap ::
  "ref \<Rightarrow> ('k::linorder, 'v) TreeMap \<Rightarrow> ref \<Rightarrow> ref list \<Rightarrow> ('k \<times> 'v) list \<Rightarrow> bool" where
  "wf_TreeMap this w e ns ps =
     (wf_list (store w) (data w) e ns \<and>
      map (\<lambda>a. map_option m_value (deref (store w) (Some a))) ns = map (\<lambda>p. Some (Some p)) ps \<and>
      sorted_wrt (<) (map fst ps) \<and>
      inorder (tree w) = map (handle this) ns)"

section \<open>Foreign iterators\<close>

lemma get_source_deref:
  "deref h it = Some n \<Longrightarrow> get_source it h = Some (h, Inr (m_source n))"
  by (simp add: get_source_def ret_def)

lemma insertByRepeatingVal_foreign:
  "deref h position = Some n \<Longrightarrow> m_source n \<noteq> this \<Longrightarrow>
   insertByRepeatingVal this position sz val h = Some (h, Inl InvalidArgument)"
  by (auto simp: insertByRepeatingVal_def bnd_def get_source_deref throw_def)

lemma insert_by_range_foreign:
  "deref h position = Some n \<Longrightarrow> m_source n \<noteq> this \<Longrightarrow>
   insert_by_range fuel this position b e h = Some (h, Inl InvalidArgument)"
  by (auto simp: insert_by_range_def bnd_def get_source_deref throw_def)

lemma erase_by_range_foreign:
  "deref h b = Some nb \<Longrightarrow> deref h e = Some ne \<Longrightarrow> m_source nb \<noteq> this \<or> m_source ne \<noteq> this \<Longrightarrow>
   erase_by_range fuel this b e h = Some (h, Inl InvalidArgument)"
  by (auto simp: erase_by_range_def bnd_def get_source_deref throw_def ret_def)

lemma erase_by_range_foreign_begin:
  "deref h b = Some nb \<Longrightarrow> m_source nb \<noteq> this \<Longrightarrow>
   erase_by_range fuel this b e h = Some (h, Inl InvalidArgument)"
  by (auto simp: erase_by_range_def bnd_def get_source_deref throw_def ret_def)

lemma it_next_deref:
  "deref h it = Some n \<Longrightarrow> it_next it h = Some (h, Inr (m_next n))"
  by (simp add: it_next_def ret_def)

lemma erase_by_range_foreign_end:
  assumes "deref h b = Some nb" and "deref h e = Some ne" and "m_source ne \<noteq> this"
  shows "erase_by_range fuel this b e h = Some (h, Inl InvalidArgument)"
proof (cases "m_source nb = this")
  case True
  with assms show ?thesis
    by (auto simp: erase_by_range_def bnd_def get_source_deref throw_def ret_def)
next
  case False
  with assms(1) show ?thesis by (rule_tac erase_by_range_foreign_begin)
qed

text \<open>
  Claim C1.  Let \<open>p\<close> be an iterator whose source is not the list \<open>this\<close>.  Then each
  overload of \<open>insert\<close> with \<open>p\<close> as the position, \<open>erase(p)\<close>, \<open>erase(p, e)\<close> for
  any \<open>e\<close>, and \<open>erase(q, p)\<close> for any iterator \<open>q\<close> throw the library's
  \<open>InvalidArgument\<close> (the error the specification calls InvalidOperand), and the
  store at the throw is the store of the call: no node and no field of any list has
  changed, so the elements and the size of \<open>this\<close> are what they were.
\<close>
theorem foreign_iterator_rejected:
  assumes "deref h p = Some n" and "m_source n \<noteq> this" and "deref h q = Some n'"
  shows "List_insert fuel this (InsertVal p v) h = Some (h, Inl InvalidArgument) \<and>
         List_insert fuel this (InsertFill p k v) h = Some (h, Inl InvalidArgument) \<and>
         List_insert fuel this (InsertRange p b e) h = Some (h, Inl InvalidArgument) \<and>
         List_erase fuel this (EraseAt p) h = Some (h, Inl InvalidArgument) \<and>
         List_erase fuel this (EraseRange p e) h = Some (h, Inl InvalidArgument) \<and>
         List_erase fuel this (EraseRange q p) h = Some (h, Inl InvalidArgument)"
proof -
  have at: "erase_by_iterator fuel this p h = Some (h, Inl InvalidArgument)"
    using assms(1,2)
    by (simp add: erase_by_iterator_def bnd_def it_next_deref erase_by_range_foreign_begin)
  show ?thesis
    using assms at
    by (simp add: insert_by_val_def insertByRepeatingVal_foreign insert_by_range_foreign
        erase_by_range_foreign_begin erase_by_range_foreign_end)
qed

lemma two_lists_constructed:
  "run (bnd (List_constructor 0 0 (FromArray [1])) (\<lambda>_. List_constructor 0 1 (FromArray [2])))
     empty_heap = Some two_lists"
  by (simp add: run_def bnd_def ret_def throw_def empty_heap_def two_lists_def List_clear_def
      List_push_back_def new_ListIterator_def setPrev_def setNext_def set_begin_def set_end_def
      set_size_def add_size_def this_size_def this_end_def it_prev_def deref_def List_empty_def
      List_size_def eval_nat_numeral)

theorem foreign_iterator_rejected_witness:
  "deref two_lists (Some 3) = Some \<lparr>m_source = 1, m_prev = Some 2, m_next = Some 2, m_value = Some 2\<rparr> \<and>
   List_insert 5 0 (InsertVal (Some 3) 7) two_lists = Some (two_lists, Inl InvalidArgument) \<and>
   List_erase 5 0 (EraseAt (Some 3)) two_lists = Some (two_lists, Inl InvalidArgument) \<and>
   List_erase 5 0 (EraseRange (Some 1) (Some 3)) two_lists = Some (two_lists, Inl InvalidArgument) \<and>
   elements two_lists 0 = Some [Some 1]"
proof -
  have p: "deref two_lists (Some 3) =
      Some \<lparr>m_source = 1, m_prev = Some 2, m_next = Some 2, m_value = Some 2\<rparr>"
    by (simp add: deref_def two_lists_def)
  have q: "deref two_lists (Some 1) =
      Some \<lparr>m_source = 0, m_prev = Some 0, m_next = Some 0, m_value = Some 1\<rparr>"
    by (simp add: deref_def two_lists_def)
  have src: "m_source \<lparr>m_source = 1, m_prev = Some 2, m_next = Some 2, m_value = Some (2::int)\<rparr> \<noteq> 0"
    by simp
  have els: "elements two_lists 0 = Some [Some 1]"
    by code_simp
  from foreign_iterator_rejected [OF p src q, of 5 7 0 None None] p els
  show ?thesis by simp
qed

section \<open>The fill constructor\<close>

text \<open>
  Claim C10.  \<open>assign(n, v)\<close> returns without touching the store, for every count
  and value, and so does the fill constructor, which does nothing else: constructed on
  a fresh object, it leaves no node at all and the three fields of the list unassigned,
  so a walk from \<open>begin()\<close> to \<open>end()\<close> meets no element.
\<close>
theorem fill_constructor_assigns_nothing:
  "List_assign fuel this (AssignFill n v) h = Some (h, Inr ()) \<and>
   List_constructor fuel this (Fill n v) h = Some (h, Inr ()) \<and>
   (case List_constructor fuel this (Fill n v) empty_heap of
      None \<Rightarrow> False
    | Some (h', r) \<Rightarrow>
        iterators h' = [] \<and>
        containers h' this = \<lparr>m_begin = None, m_end = None, m_size = None\<rparr> \<and>
        elements h' this = Some [])"
  by (simp add: ret_def empty_heap_def elements_def)

section \<open>The chain after a mutation\<close>

text \<open>
  Claim C6 fails on the code.  A list made by the default constructor satisfies the
  invariant.  After \<open>push_front(7)\<close> on it the invariant is broken: the new node is
  made with \<open>prev = null\<close> and no statement links it back to the sentinel, so
  \<open>end().next().prev()\<close> is \<open>null\<close>.  After \<open>erase(begin())\<close> on the list
  \<open>[1, 2, 3]\<close> it is broken too: \<open>begin_\<close> is only reset when the list becomes
  empty, so it still names the erased node, which is not the sentinel's \<open>next\<close>.
\<close>
theorem push_front_breaks_chain:
  "map_option (\<lambda>h. circular_chain h 0)
     (run (List_constructor 0 0 NoArgs) empty_heap) = Some True \<and>
   map_option (\<lambda>h. (circular_chain h 0, prev_of h (next_of h (m_end (containers h 0)))))
     (run (bnd (List_constructor 0 0 NoArgs) (\<lambda>_. List_push_front 0 (7::int))) empty_heap)
     = Some (False, None) \<and>
   map_option (\<lambda>h. (circular_chain h 0, m_begin (containers h 0), next_of h (m_end (containers h 0))))
     (run (bnd (List_constructor 0 0 (FromArray [1, 2, 3::int])) (\<lambda>_.
           bnd (List_begin 0) (\<lambda>b. List_erase 5 0 (EraseAt b)))) empty_heap)
     = Some (False, Some 1, Some 2)"
  by code_simp

section \<open>merge\<close>

text \<open>
  Claim C5 fails on the code.  For \<open>A = [1, 3, 5]\<close> and \<open>B = [2, 4, 6]\<close>,
  \<open>A.merge(B)\<close> returns with \<open>A = [1, 2, 2, 2, 3, 5]\<close>; \<open>B\<close> has size \<open>0\<close>
  while a walk from its \<open>begin()\<close> still meets \<open>4\<close> and \<open>6\<close>.  (\<open>erase\<close> leaves
  \<open>begin_\<close> of \<open>B\<close> on the node it removed, so the loop splices the element \<open>2\<close>
  three times.)  And where the order of equal elements can be seen it is the reverse
  of the documented one: merging \<open>[(1, b)]\<close> into \<open>[(0, a), (1, a)]\<close>, compared by
  the first component, puts \<open>(1, b)\<close> before \<open>(1, a)\<close>.
\<close>
theorem merge_example_diverges:
  "map_option (\<lambda>h. (elements h 0, m_size (containers h 0), elements h 1, m_size (containers h 1)))
     (run (bnd (List_constructor 0 0 (FromArray [1, 3, 5::int])) (\<lambda>_.
           bnd (List_constructor 0 1 (FromArray [2, 4, 6])) (\<lambda>_.
           List_merge 20 0 1 std_less))) empty_heap)
     = Some (Some [Some 1, Some 2, Some 2, Some 2, Some 3, Some 5], Some 6,
             Some [Some 4, Some 6], Some 0) \<and>
   map_option (\<lambda>h. elements h 0)
     (run (bnd (List_constructor 0 0 (FromArray [(0, ''a''), (1, ''a'')])) (\<lambda>_.
           bnd (List_constructor 0 1 (FromArray [(1, ''b'')])) (\<lambda>_.
           List_merge 20 0 1 less_first))) empty_heap)
     = Some (Some [Some (0, ''a''), Some (1, ''b''), Some (1, ''a'')])"
  by code_simp

section \<open>unique\<close>

text \<open>
  Claim C7 fails on the code.  The body of \<open>unique\<close> compares neighbours with the
  library's structural equality whatever predicate it is given.  With the equivalence
  "same parity" the list \<open>[1, 3]\<close> keeps both elements, where the claim removes
  \<open>3\<close>.  With the default equality the example of the specification holds:
  \<open>[1, 2, 2, 3, 3, 3, 4]\<close> becomes \<open>[1, 2, 3, 4]\<close>.
\<close>
theorem unique_ignores_predicate:
  "same_parity (Some 3) (Some 1) \<and>
   map_option (\<lambda>h. elements h 0)
     (run (bnd (List_constructor 0 0 (FromArray [1, 3])) (\<lambda>_.
           List_unique 20 0 same_parity)) empty_heap)
     = Some (Some [Some 1, Some 3]) \<and>
   map_option (\<lambda>h. elements h 0)
     (run (bnd (List_constructor 0 0 (FromArray [1, 2, 2, 3, 3, 3, 4::int])) (\<lambda>_.
           List_unique 20 0 std_equals)) empty_heap)
     = Some (Some [Some 1, Some 2, Some 3, Some 4])"
  by code_simp

section \<open>The bucket table\<close>

lemma bnd_cases:
  assumes "bnd m f w = Some (w', r)"
  obtains e where "m w = Some (w', Inl e)" and "r = Inl e"
        | w1 x where "m w = Some (w1, Inr x)" and "f x w1 = Some (w', r)"
  using assms by (auto simp: bnd_def split: option.splits sum.splits)

lemma keepsD: "keeps P m \<Longrightarrow> P w \<Longrightarrow> m w = Some (w', r) \<Longrightarrow> P w'"
  unfolding keeps_def by blast

lemma keeps_ret: "keeps P (ret x)"
  by (simp add: keeps_def ret_def)

lemma keeps_throw: "keeps P (throw e)"
  by (simp add: keeps_def throw_def)

lemma keeps_diverge: "keeps P diverge"
  by (simp add: keeps_def diverge_def)

lemma keeps_bnd: "keeps P m \<Longrightarrow> (\<And>x. keeps P (f x)) \<Longrightarrow> keeps P (bnd m f)"
  unfolding keeps_def by (blast elim: bnd_cases)

lemma keeps_if: "keeps P a \<Longrightarrow> keeps P b \<Longrightarrow> keeps P (if c then a else b)"
  by simp

lemma keeps_on_data: "keeps (enough_buckets H) (on_data f)"
  by (auto simp: keeps_def on_data_def enough_buckets_def split: option.splits)

lemma keeps_on_store: "keeps (enough_buckets H) (on_store f)"
  unfolding on_store_def by (rule keeps_on_data)

lemma keeps_group_size: "keeps P group_size"
  by (simp add: keeps_def group_size_def ret_def)

lemma keeps_group_at: "keeps P (group_at i)"
  by (simp add: keeps_def group_at_def ret_def throw_def)

lemma keeps_group_set: "keeps (enough_buckets H) (group_set i b)"
  by (simp add: keeps_def group_set_def ret_def throw_def enough_buckets_def)

lemma keeps_hashIndex: "keeps P (hashIndex H key)"
  unfolding hashIndex_def by (intro keeps_bnd keeps_group_size keeps_if keeps_throw keeps_ret)

lemma keeps_map_begin: "keeps (enough_buckets H) (map_begin this)"
  unfolding map_begin_def by (intro keeps_bnd keeps_on_data keeps_ret)

lemma keeps_map_end: "keeps (enough_buckets H) (map_end this)"
  unfolding map_end_def by (intro keeps_bnd keeps_on_data keeps_ret)

lemma constructHashGroup_enough:
  "constructHashGroup H (Some n) w = Some (w', r) \<Longrightarrow> enough_buckets H w'"
  by (auto simp: constructHashGroup_def ret_def enough_buckets_def Let_def)

lemma handleInsert_Suc:
  "handleInsert (Suc fuel) H this it w =
     bnd (if (case m_size (containers (store w) (data w)) of None \<Rightarrow> False
              | Some k \<Rightarrow> int (length (hashGroup w)) > k * 2)
          then reconstructHashGroup fuel H this (Some (- 1))
          else ret ()) (\<lambda>_.
     bnd (on_store (MapIterator_first it)) (\<lambda>key.
     bnd (hashIndex H key) (\<lambda>i.
     bnd (group_at i) (\<lambda>b.
     group_set i (b @ [it]))))) w"
  by (simp add: bnd_def group_size_def map_size_def on_data_def List_size_def this_size_def ret_def)

lemma keeps_bucket_push:
  "keeps (enough_buckets H)
     (bnd (on_store (MapIterator_first it)) (\<lambda>key.
      bnd (hashIndex H key) (\<lambda>i.
      bnd (group_at i) (\<lambda>b.
      group_set i (b @ [it])))))"
  by (intro keeps_bnd keeps_on_store keeps_hashIndex keeps_group_at keeps_group_set)

lemma reconstructHashGroup_Suc:
  "reconstructHashGroup (Suc fuel) H this sz w =
     bnd (constructHashGroup H
            (if sz = Some (- 1)
             then map_option (\<lambda>k. k * RATIO H) (m_size (containers (store w) (data w)))
             else sz)) (\<lambda>_.
     bnd (map_begin this) (\<lambda>b.
     reconstruct_items fuel H this b)) w"
  by (simp add: bnd_def map_size_def on_data_def List_size_def this_size_def ret_def)

lemma rehash_enough:
  "keeps (enough_buckets H) (handleInsert fuel H this it :: ('k, 'v, unit) umm) \<and>
   (\<forall>w w' r. reconstructHashGroup fuel H this sz w = Some (w', r) \<longrightarrow>
      sz \<noteq> None \<longrightarrow> (sz = Some (- 1) \<longrightarrow> m_size (containers (store w) (data w)) \<noteq> None) \<longrightarrow>
      enough_buckets H (w' :: ('k, 'v) UnorderedMultiMap)) \<and>
   keeps (enough_buckets H) (reconstruct_items fuel H this it :: ('k, 'v, unit) umm)"
proof (induction fuel arbitrary: it sz)
  case 0
  show ?case by (simp add: keeps_def diverge_def)
next
  case (Suc fuel)
  have ins: "keeps (enough_buckets H) (handleInsert fuel H this it :: ('k, 'v, unit) umm)" for it
    using Suc by blast
  have rec: "enough_buckets H w'"
    if "reconstructHashGroup fuel H this (Some (- 1)) w = Some (w', r)"
      and "m_size (containers (store w) (data w)) \<noteq> None"
    for w w' :: "('k, 'v) UnorderedMultiMap" and r
    using Suc that by blast
  have items: "keeps (enough_buckets H) (reconstruct_items fuel H this it :: ('k, 'v, unit) umm)" for it
    using Suc by blast
  have A: "keeps (enough_buckets H) (handleInsert (Suc fuel) H this it :: ('k, 'v, unit) umm)"
    unfolding keeps_def
  proof (intro allI impI)
    fix w w' :: "('k, 'v) UnorderedMultiMap" and r
    assume P: "enough_buckets H w" and run: "handleInsert (Suc fuel) H this it w = Some (w', r)"
    show "enough_buckets H w'"
    proof (cases "case m_size (containers (store w) (data w)) of None \<Rightarrow> False
              | Some k \<Rightarrow> int (length (hashGroup w)) > k * 2")
      case True
      then have sz: "m_size (containers (store w) (data w)) \<noteq> None" by (auto split: option.splits)
      from run True have
        "bnd (reconstructHashGroup fuel H this (Some (- 1))) (\<lambda>_.
           bnd (on_store (MapIterator_first it)) (\<lambda>key.
           bnd (hashIndex H key) (\<lambda>i.
           bnd (group_at i) (\<lambda>b.
           group_set i (b @ [it]))))) w = Some (w', r)"
        by (simp add: handleInsert_Suc del: handleInsert.simps)
      then show ?thesis
      proof (cases rule: bnd_cases)
        case (1 e)
        then show ?thesis using rec sz by blast
      next
        case (2 w1 x)
        from 2(1) sz have "enough_buckets H w1" by (rule rec)
        with 2(2) show ?thesis using keeps_bucket_push by (blast dest: keepsD)
      qed
    next
      case False
      with run have
        "bnd (ret ()) (\<lambda>_.
           bnd (on_store (MapIterator_first it)) (\<lambda>key.
           bnd (hashIndex H key) (\<lambda>i.
           bnd (group_at i) (\<lambda>b.
           group_set i (b @ [it]))))) w = Some (w', r)"
        by (simp add: handleInsert_Suc del: handleInsert.simps)
      then have "bnd (on_store (MapIterator_first it)) (\<lambda>key.
           bnd (hashIndex H key) (\<lambda>i.
           bnd (group_at i) (\<lambda>b.
           group_set i (b @ [it])))) w = Some (w', r)"
        by (simp add: bnd_def ret_def)
      with P show ?thesis using keeps_bucket_push by (blast dest: keepsD)
    qed
  qed
  have B: "enough_buckets H w'"
    if run: "reconstructHashGroup (Suc fuel) H this sz w = Some (w', r)"
      and sz: "sz \<noteq> None" "sz = Some (- 1) \<longrightarrow> m_size (containers (store w) (data w)) \<noteq> None"
    for w w' :: "('k, 'v) UnorderedMultiMap" and r
  proof -
    from sz have "\<exists>n. (if sz = Some (- 1)
             then map_option (\<lambda>k. k * RATIO H) (m_size (containers (store w) (data w)))
             else sz) = Some n"
      by (cases sz) auto
    then obtain n where n: "(if sz = Some (- 1)
             then map_option (\<lambda>k. k * RATIO H) (m_size (containers (store w) (data w)))
             else sz) = Some n" ..
    from run n have "bnd (constructHashGroup H (Some n)) (\<lambda>_.
        bnd (map_begin this) (\<lambda>b. reconstruct_items fuel H this b)) w = Some (w', r)"
      by (simp add: reconstructHashGroup_Suc del: reconstructHashGroup.simps)
    then show ?thesis
    proof (cases rule: bnd_cases)
      case (1 e)
      then show ?thesis by (simp add: constructHashGroup_enough)
    next
      case (2 w1 x)
      from 2(1) have "enough_buckets H w1" by (rule constructHashGroup_enough)
      moreover have "keeps (enough_buckets H) (bnd (map_begin this) (\<lambda>b. reconstruct_items fuel H this b :: ('k, 'v, unit) umm))"
        by (intro keeps_bnd keeps_map_begin items)
      ultimately show ?thesis using 2(2) by (blast dest: keepsD)
    qed
  qed
  have C: "keeps (enough_buckets H) (reconstruct_items (Suc fuel) H this it :: ('k, 'v, unit) umm)"
    by (simp only: reconstruct_items.simps)
       (intro keeps_bnd keeps_map_end keeps_on_store keeps_if keeps_ret ins items)
  from A B C show ?case by blast
qed

lemma keeps_handleInsert: "keeps (enough_buckets H) (handleInsert fuel H this it)"
  using rehash_enough [of H fuel this it None] by blast

lemma keeps_erase_scan: "keeps (enough_buckets H) (erase_scan it b i)"
  by (induction b arbitrary: i) (auto intro!: keeps_bnd keeps_ret keeps_if keeps_on_store)

lemma keeps_handleErase: "keeps (enough_buckets H) (handleErase H it)"
  unfolding handleErase_def
  by (intro keeps_bnd keeps_on_store keeps_hashIndex keeps_group_at keeps_erase_scan)
     (auto split: option.splits intro: keeps_ret keeps_group_set)

lemma keeps_insertByPair: "keeps (enough_buckets H) (umm_insertByPair fuel H this pair)"
  unfolding umm_insertByPair_def
  by (intro keeps_bnd keeps_on_data keeps_handleInsert keeps_ret)

lemma keeps_umm_erase: "keeps (enough_buckets H) (umm_erase fuel H it)"
  unfolding umm_erase_def by (intro keeps_bnd keeps_on_data keeps_handleErase)

lemma keeps_constructHashGroup: "keeps (enough_buckets H) (constructHashGroup H (Some n))"
  unfolding keeps_def by (blast intro: constructHashGroup_enough)

lemma keeps_umm_clear: "keeps (enough_buckets H) (umm_clear H)"
  unfolding umm_clear_def by (intro keeps_bnd keeps_on_data keeps_constructHashGroup)

lemma keeps_count_pairs: "keeps (enough_buckets H) (count_pairs fuel it en sz)"
  by (induction fuel arbitrary: it sz)
     (auto intro!: keeps_bnd keeps_ret keeps_if keeps_on_store keeps_diverge)

lemma keeps_insert_pairs: "keeps (enough_buckets H) (insert_pairs fuel H this it en)"
  by (induction fuel arbitrary: it)
     (auto intro!: keeps_bnd keeps_ret keeps_if keeps_on_store keeps_diverge keeps_insertByPair)

lemma keeps_insert_array: "keeps (enough_buckets H) (insert_array fuel H this items)"
  by (induction items) (auto intro!: keeps_bnd keeps_ret keeps_insertByPair)

lemma reconstructHashGroup_enough:
  assumes "reconstructHashGroup fuel H this (Some n) w = Some (w', r)"
    and "n = - 1 \<longrightarrow> m_size (containers (store w) (data w)) \<noteq> None"
  shows "enough_buckets H w'"
  using rehash_enough [of H fuel this undefined "Some n"] assms by blast

lemma keeps_umm_assign: "keeps (enough_buckets H) (umm_assign fuel H this begin en)"
  unfolding umm_assign_def
  by (intro keeps_bnd keeps_count_pairs keeps_constructHashGroup keeps_on_data keeps_insert_pairs)

lemma keeps_rebuild:
  "keeps (enough_buckets H)
     (bnd map_size (\<lambda>s.
      bnd group_size (\<lambda>n.
      if (case s of None \<Rightarrow> False | Some k \<Rightarrow> k + sz > int n * 2)
      then reconstructHashGroup fuel H this (map_option (\<lambda>k. (k + sz) * RATIO H) s)
      else ret ())) :: ('k, 'v, unit) umm)"
  unfolding keeps_def
proof (intro allI impI)
  fix w w' :: "('k, 'v) UnorderedMultiMap" and r
  let ?s = "m_size (containers (store w) (data w))"
  assume P: "enough_buckets H w"
    and run: "bnd map_size (\<lambda>s.
      bnd group_size (\<lambda>n.
      if (case s of None \<Rightarrow> False | Some k \<Rightarrow> k + sz > int n * 2)
      then reconstructHashGroup fuel H this (map_option (\<lambda>k. (k + sz) * RATIO H) s)
      else ret ())) w = Some (w', r)"
  have eq: "bnd map_size (\<lambda>s.
      bnd group_size (\<lambda>n.
      if (case s of None \<Rightarrow> False | Some k \<Rightarrow> k + sz > int n * 2)
      then reconstructHashGroup fuel H this (map_option (\<lambda>k. (k + sz) * RATIO H) s)
      else ret ())) w =
     (if (case ?s of None \<Rightarrow> False | Some k \<Rightarrow> k + sz > int (length (hashGroup w)) * 2)
      then reconstructHashGroup fuel H this (map_option (\<lambda>k. (k + sz) * RATIO H) ?s) w
      else ret () w)"
    by (simp add: bnd_def group_size_def map_size_def on_data_def List_size_def this_size_def ret_def)
  show "enough_buckets H w'"
  proof (cases "case ?s of None \<Rightarrow> False | Some k \<Rightarrow> k + sz > int (length (hashGroup w)) * 2")
    case True
    then obtain k where k: "?s = Some k" by (auto split: option.splits)
    from run True k have "reconstructHashGroup fuel H this (Some ((k + sz) * RATIO H)) w = Some (w', r)"
      unfolding eq by simp
    then show ?thesis by (rule reconstructHashGroup_enough) (simp add: k)
  next
    case False
    with run have "w' = w" unfolding eq by (simp add: ret_def)
    with P show ?thesis by simp
  qed
qed

lemma umm_insertByRange_alt:
  "umm_insertByRange fuel H this begin en =
     bnd (count_pairs fuel begin en 0) (\<lambda>sz.
     bnd (bnd map_size (\<lambda>s.
          bnd group_size (\<lambda>n.
          if (case s of None \<Rightarrow> False | Some k \<Rightarrow> k + sz > int n * 2)
          then reconstructHashGroup fuel H this (map_option (\<lambda>k. (k + sz) * RATIO H) s)
          else ret ()))) (\<lambda>_.
     insert_pairs fuel H this begin en))"
  unfolding umm_insertByRange_def
  by (rule arg_cong [where f = "bnd (count_pairs fuel begin en 0)"])
     (auto simp: fun_eq_iff bnd_def split: option.splits sum.splits prod.splits)

lemma keeps_umm_insertByRange: "keeps (enough_buckets H) (umm_insertByRange fuel H this begin en)"
  unfolding umm_insertByRange_alt
  by (intro keeps_bnd keeps_count_pairs keeps_rebuild keeps_insert_pairs)

lemma keeps_umm_apply: "keeps (enough_buckets H) (umm_apply fuel H this x)"
  by (cases x)
     (auto intro!: keeps_bnd keeps_ret keeps_insertByPair keeps_umm_erase keeps_umm_clear
        keeps_umm_insertByRange keeps_umm_assign)

lemma keeps_umm_run: "keeps (enough_buckets H) (umm_run fuel H this ops)"
  by (induction ops) (auto intro!: keeps_bnd keeps_ret keeps_umm_apply)

lemma keeps_umm_overload: "keeps (enough_buckets H) (umm_overload fuel H this args)"
  by (cases args)
     (auto simp: constructByArray_def
        intro!: keeps_bnd keeps_ret keeps_on_store keeps_umm_assign keeps_constructHashGroup
          keeps_insert_array)

lemma List_clear_returns: "\<exists>h'. List_clear this h = Some (h', Inr ())"
  by (simp add: List_clear_def bnd_def new_ListIterator_def setPrev_def setNext_def ret_def
      set_begin_def set_end_def set_size_def)

lemma constructHashGroup_clamps:
  "constructHashGroup H (Some n) w =
     Some (w\<lparr>hashGroup := replicate (nat (max n (MIN_SIZE H))) []\<rparr>, Inr ())"
  by (simp add: constructHashGroup_def ret_def Let_def max_def)

lemma umm_constructor_returns:
  "\<exists>h'. umm_constructor H d h =
     Some (\<lparr>store = h', data = d, hashGroup = replicate (nat (MIN_SIZE H)) []\<rparr>, Inr ())"
proof -
  obtain h' where c: "List_clear d h = Some (h', Inr ())"
    using List_clear_returns by blast
  then have "on_data (\<lambda>d. List_constructor 0 d NoArgs) \<lparr>store = h, data = d, hashGroup = []\<rparr>
      = Some (\<lparr>store = h', data = d, hashGroup = []\<rparr>, Inr ())"
    by (simp add: on_data_def)
  moreover have "nat (max (- 1) (MIN_SIZE H)) = nat (MIN_SIZE H)" by simp
  ultimately show ?thesis
    by (simp add: umm_constructor_def bnd_def constructHashGroup_clamps)
qed

lemma umm_constructor_enough:
  assumes "umm_constructor H d h = Some (w, r)"
  shows "enough_buckets H w"
  using umm_constructor_returns [of H d h] assms by (auto simp: enough_buckets_def)

lemma umm_clear_returns:
  "\<exists>w'. umm_clear H w = Some (w', Inr ()) \<and> length (hashGroup w') = nat (MIN_SIZE H)"
proof -
  obtain h' where c: "List_clear (data w) (store w) = Some (h', Inr ())"
    using List_clear_returns by blast
  then have "on_data List_clear w = Some (w\<lparr>store := h'\<rparr>, Inr ())"
    by (simp add: on_data_def)
  moreover have "nat (max (- 1) (MIN_SIZE H)) = nat (MIN_SIZE H)" by simp
  ultimately show ?thesis
    by (simp add: umm_clear_def bnd_def constructHashGroup_clamps)
qed

lemma clears_return:
  "length (hashGroup w) = nat (MIN_SIZE H) \<Longrightarrow>
   \<exists>w'. umm_run fuel H this (replicate k Clear) w = Some (w', Inr ()) \<and>
        length (hashGroup w') = nat (MIN_SIZE H)"
proof (induction k arbitrary: w)
  case 0
  then show ?case by (simp add: ret_def)
next
  case (Suc k)
  obtain w1 where w1: "umm_clear H w = Some (w1, Inr ())" "length (hashGroup w1) = nat (MIN_SIZE H)"
    using umm_clear_returns by blast
  from Suc.IH [OF w1(2)] w1(1) show ?case by (simp add: bnd_def)
qed

text \<open>
  Claim C9.  In every state that a session with a hash multimap reaches, the table has
  at least \<open>MIN_SIZE\<close> buckets.  A session is the construction by any of the four
  overloads of the constructor, then any sequence of inserts of a pair, inserts of a
  range, erases of a handle, clears and assigns, up to the return of the last one or to
  the first exception.  Every rebuild clamps: from any state of the map, with a table of
  any size, \<open>reconstructHashGroup\<close> leaves at least \<open>MIN_SIZE\<close> buckets whenever it
  returns or throws (with the default count the size of the list has to be a number,
  which it is once the list is constructed).  \<open>constructHashGroup\<close> always returns,
  and the table it builds has the requested count of buckets, raised to \<open>MIN_SIZE\<close>
  when it is below.  The construction without arguments followed by any number of clears
  always returns, with exactly \<open>MIN_SIZE\<close> buckets.
\<close>
theorem bucket_count_at_least_MIN_SIZE:
  "(umm_session_of fuel H this d args ops h = Some (w, r) \<longrightarrow>
      MIN_SIZE H \<le> int (length (hashGroup w))) \<and>
   (reconstructHashGroup fuel1 H this1 (Some n1) w1 = Some (w1', r1) \<longrightarrow>
      (n1 = - 1 \<longrightarrow> m_size (containers (store w1) (data w1)) \<noteq> None) \<longrightarrow>
      MIN_SIZE H \<le> int (length (hashGroup w1'))) \<and>
   constructHashGroup H (Some n) w0 =
     Some (w0\<lparr>hashGroup := replicate (nat (max n (MIN_SIZE H))) []\<rparr>, Inr ()) \<and>
   (\<exists>w2. umm_session_of fuel H this d UNoArgs (replicate k Clear) h = Some (w2, Inr ()) \<and>
      length (hashGroup w2) = nat (MIN_SIZE H))"
proof (intro conjI impI)
  assume run: "umm_session_of fuel H this d args ops h = Some (w, r)"
  obtain h' where c: "umm_constructor H d h =
     Some (\<lparr>store = h', data = d, hashGroup = replicate (nat (MIN_SIZE H)) []\<rparr>, Inr ())"
    using umm_constructor_returns by blast
  then have w1: "enough_buckets H \<lparr>store = h', data = d, hashGroup = replicate (nat (MIN_SIZE H)) []\<rparr>"
    by (rule umm_constructor_enough)
  from run c have "bnd (umm_overload fuel H this args) (\<lambda>_. umm_run fuel H this ops)
      \<lparr>store = h', data = d, hashGroup = replicate (nat (MIN_SIZE H)) []\<rparr> = Some (w, r)"
    by (simp add: umm_session_of_def)
  moreover have "keeps (enough_buckets H)
      (bnd (umm_overload fuel H this args) (\<lambda>_. umm_run fuel H this ops :: ('a, 'b, unit) umm))"
    by (intro keeps_bnd keeps_umm_overload keeps_umm_run)
  ultimately have "enough_buckets H w" using w1 by (blast dest: keepsD)
  then show "MIN_SIZE H \<le> int (length (hashGroup w))" by (simp add: enough_buckets_def)
next
  assume "reconstructHashGroup fuel1 H this1 (Some n1) w1 = Some (w1', r1)"
    and "n1 = - 1 \<longrightarrow> m_size (containers (store w1) (data w1)) \<noteq> None"
  then have "enough_buckets H w1'" by (rule reconstructHashGroup_enough)
  then show "MIN_SIZE H \<le> int (length (hashGroup w1'))" by (simp add: enough_buckets_def)
next
  show "constructHashGroup H (Some n) w0 =
     Some (w0\<lparr>hashGroup := replicate (nat (max n (MIN_SIZE H))) []\<rparr>, Inr ())"
    by (rule constructHashGroup_clamps)
next
  obtain h' where c: "umm_constructor H d h =
     Some (\<lparr>store = h', data = d, hashGroup = replicate (nat (MIN_SIZE H)) []\<rparr>, Inr ())"
    using umm_constructor_returns by blast
  have "\<exists>w2. umm_run fuel H this (replicate k Clear)
      \<lparr>store = h', data = d, hashGroup = replicate (nat (MIN_SIZE H)) []\<rparr> = Some (w2, Inr ()) \<and>
      length (hashGroup w2) = nat (MIN_SIZE H)"
    by (rule clears_return) simp
  with c show "\<exists>w2. umm_session_of fuel H this d UNoArgs (replicate k Clear) h = Some (w2, Inr ()) \<and>
      length (hashGroup w2) = nat (MIN_SIZE H)"
    by (simp add: umm_session_of_def bnd_def ret_def)
qed

theorem bucket_count_at_least_MIN_SIZE_witness:
  "(\<exists>w r. umm_session_of 40 pair_Hash 7 0
       (UFromArray [(1, ''a''), (2, ''b''), (3, ''c'')])
       [InsertByRange \<lparr>mi_source = 8, listIterator = Some 1\<rparr> \<lparr>mi_source = 8, listIterator = Some 0\<rparr>,
        Erase \<lparr>mi_source = 7, listIterator = Some 8\<rparr>,
        Assign \<lparr>mi_source = 8, listIterator = Some 1\<rparr> \<lparr>mi_source = 8, listIterator = Some 0\<rparr>,
        Insert (9, ''z'')] source_heap = Some (w, r) \<and>
       r = Inr () \<and> length (hashGroup w) = 2 \<and>
       MIN_SIZE pair_Hash \<le> int (length (hashGroup w))) \<and>
   (\<exists>w' r'. reconstructHashGroup 40 wide_Hash 8 (Some (- 1))
       \<lparr>store = source_heap, data = 1, hashGroup = []\<rparr> = Some (w', r') \<and>
       r' = Inr () \<and> length (hashGroup w') = 10 \<and>
       m_size (containers source_heap 1) = Some 5 \<and>
       MIN_SIZE wide_Hash \<le> int (length (hashGroup w')))"
proof -
  let ?items = "[(1, ''a''), (2, ''b''), (3, ''c'')] :: (int \<times> string) list"
  let ?ops = "[InsertByRange \<lparr>mi_source = 8, listIterator = Some 1\<rparr> \<lparr>mi_source = 8, listIterator = Some 0\<rparr>,
        Erase \<lparr>mi_source = 7, listIterator = Some 8\<rparr>,
        Assign \<lparr>mi_source = 8, listIterator = Some 1\<rparr> \<lparr>mi_source = 8, listIterator = Some 0\<rparr>,
        Insert (9, ''z'')] :: (int, string) umm_op list"
  let ?w0 = "\<lparr>store = source_heap, data = 1, hashGroup = []\<rparr> :: (int, string) UnorderedMultiMap"
  have "case umm_session_of 40 pair_Hash 7 0 (UFromArray ?items) ?ops source_heap of
          None \<Rightarrow> False
        | Some (w, r) \<Rightarrow> r = Inr () \<and> length (hashGroup w) = 2"
    by code_simp
  then obtain w r where run:
    "umm_session_of 40 pair_Hash 7 0 (UFromArray ?items) ?ops source_heap = Some (w, r)"
    and res: "r = Inr ()" "length (hashGroup w) = 2"
    by (auto split: option.splits)
  have "case reconstructHashGroup 40 wide_Hash 8 (Some (- 1)) ?w0 of
          None \<Rightarrow> False
        | Some (w, r) \<Rightarrow> r = Inr () \<and> length (hashGroup w) = 10"
    by code_simp
  then obtain w' r' where re: "reconstructHashGroup 40 wide_Hash 8 (Some (- 1)) ?w0 = Some (w', r')"
    and res': "r' = Inr ()" "length (hashGroup w') = 10"
    by (auto split: option.splits)
  have sz: "m_size (containers source_heap 1) = Some 5"
    by code_simp
  have A: "MIN_SIZE pair_Hash \<le> int (length (hashGroup w))"
    using bucket_count_at_least_MIN_SIZE [of 40 pair_Hash 7 0 "UFromArray ?items" ?ops source_heap w r
        0 0 0 ?w0 ?w0 "Inr ()" 0 ?w0 0]
      run by blast
  have B: "MIN_SIZE wide_Hash \<le> int (length (hashGroup w'))"
    using bucket_count_at_least_MIN_SIZE [of 0 wide_Hash 0 0 UNoArgs "[]" source_heap ?w0 "Inr ()"
        40 8 "- 1" ?w0 w' r' 0 ?w0 0]
      re sz by simp
  from run res re res' sz A B show ?thesis by blast
qed

text \<open>
  Claim C2 fails on the code.  With two elements of key \<open>1\<close> in the map, both handles
  sit in the bucket of \<open>1\<close> and the buckets hold exactly the live nodes.  Erasing the
  second element removes the first handle from the bucket: \<open>handleErase\<close> stops at
  the first handle whose key equals the key of the erased one.  Afterwards the live
  node \<open>1\<close> is in no bucket, the bucket holds the erased node \<open>2\<close>, and
  \<open>find(1)\<close> returns the erased position.
\<close>
theorem handleErase_removes_other_handle:
  "map_option (\<lambda>(w, r). (bucket_nodes w, live_nodes w))
     (umm_session 9 small_Hash 7 0 [Insert (1, ''a''), Insert (1, ''b'')] empty_heap)
     = Some ([[Some 1, Some 2]], Some [1, 2]) \<and>
   map_option (\<lambda>(w, r). (bucket_nodes w, live_nodes w))
     (umm_session 9 small_Hash 7 0
        [Insert (1, ''a''), Insert (1, ''b''), Erase \<lparr>mi_source = 7, listIterator = Some 2\<rparr>]
        empty_heap)
     = Some ([[Some 2]], Some [1]) \<and>
   map_option (\<lambda>(w, r). map_option (\<lambda>(w', r'). r') (umm_find small_Hash 7 1 w))
     (umm_session 9 small_Hash 7 0
        [Insert (1, ''a''), Insert (1, ''b''), Erase \<lparr>mi_source = 7, listIterator = Some 2\<rparr>]
        empty_heap)
     = Some (Some (Inr \<lparr>mi_source = 7, listIterator = Some 2\<rparr>))"
  by code_simp

section \<open>The tree map\<close>

lemma insert_exec:
  assumes p: "deref h (Some p) = Some np" and src: "m_source np = d" and pq: "m_prev np = Some q"
    and q: "q < length (iterators h)"
    and n: "m_size (containers h d) = Some n" and e: "m_end (containers h d) = Some e"
  shows "\<exists>h'. insert_by_val d (Some p) v h = Some (h', Inr (Some (length (iterators h)))) \<and>
     length (iterators h') = Suc (length (iterators h)) \<and>
     (\<forall>x. next_of h' (Some x) =
        (if x = length (iterators h) then Some p else if x = q then Some (length (iterators h))
         else next_of h (Some x))) \<and>
     (\<forall>x. prev_of h' (Some x) =
        (if x = p then Some (length (iterators h)) else if x = length (iterators h) then Some q
         else prev_of h (Some x))) \<and>
     (\<forall>x. map_option m_value (deref h' (Some x)) =
        (if x = length (iterators h) then Some (Some v) else map_option m_value (deref h (Some x)))) \<and>
     (\<forall>x. map_option m_source (deref h' (Some x)) =
        (if x = length (iterators h) then Some d else map_option m_source (deref h (Some x)))) \<and>
     containers h' = (containers h)
        (d := \<lparr>m_begin = (if n = 0 \<or> q = e then Some (length (iterators h)) else m_begin (containers h d)),
               m_end = Some e, m_size = Some (n + 1)\<rparr>)"
proof -
  from p have pl: "p < length (iterators h)" and np: "np = iterators h ! p"
    by (auto simp: deref_def split: if_splits)
  show ?thesis
    using p src pq q n e pl np
    by (simp add: insert_by_val_def insertByRepeatingVal_def bnd_def get_source_def it_prev_def
        ret_def throw_def new_ListIterator_def setNext_def setPrev_def List_empty_def List_size_def
        this_size_def List_end_def this_end_def it_equals_def set_begin_def add_size_def set_size_def
        deref_def nth_append nth_list_update next_of_def prev_of_def fun_eq_iff)
qed

lemma next_of_valid: "next_of h (Some a) = Some b \<Longrightarrow> a < length (iterators h)"
  by (auto simp: next_of_def deref_def split: if_splits)

lemma prev_of_deref:
  "prev_of h (Some a) = Some b \<Longrightarrow> \<exists>n. deref h (Some a) = Some n \<and> m_prev n = Some b"
  by (auto simp: prev_of_def split: option.splits)

lemma map_eq_nth:
  "map f xs = map g ys \<Longrightarrow> i < length xs \<Longrightarrow> f (xs ! i) = g (ys ! i)"
  by (metis length_map nth_map)

lemma map_eq_mem:
  "map f xs = map Some ys \<Longrightarrow> x \<in> set xs \<Longrightarrow> \<exists>y. f x = Some y"
  by (metis in_set_conv_nth length_map nth_map)

lemma wf_list_valid:
  assumes "wf_list h d e ns" and "a \<in> set (e # ns)"
  shows "a < length (iterators h)"
proof -
  from assms(1) have "map (\<lambda>a. next_of h (Some a)) (e # ns) = map Some (ns @ [e])"
    by (simp add: wf_list_def)
  from this assms(2) have "\<exists>y. next_of h (Some a) = Some y"
    by (rule map_eq_mem)
  then show ?thesis by (blast dest: next_of_valid)
qed

lemma map_const_mem: "map f xs = map (\<lambda>a. c) xs \<Longrightarrow> x \<in> set xs \<Longrightarrow> f x = c"
  by (induction xs) auto

lemma map_if2:
  "a \<notin> set zs \<Longrightarrow> q \<notin> set zs \<Longrightarrow>
   map (\<lambda>x. if x = a then u else if x = q then w else f x) zs = map f zs"
  by (induction zs) auto

lemma map_if1: "a \<notin> set zs \<Longrightarrow> map (\<lambda>x. if x = a then u else f x) zs = map f zs"
  by (induction zs) auto

lemma wf_list_insert:
  assumes wf: "wf_list h d e (xs @ ys)"
  shows "\<exists>h'. insert_by_val d (Some (hd (ys @ [e]))) v h = Some (h', Inr (Some (length (iterators h)))) \<and>
     wf_list h' d e (xs @ length (iterators h) # ys) \<and>
     length (iterators h') = Suc (length (iterators h)) \<and>
     (\<forall>x. map_option m_value (deref h' (Some x)) =
        (if x = length (iterators h) then Some (Some v) else map_option m_value (deref h (Some x))))"
proof -
  define p where "p = hd (ys @ [e])"
  define q where "q = last (e # xs)"
  define a where "a = length (iterators h)"
  define zs where "zs = butlast (e # xs)"
  define ts where "ts = tl (ys @ [e])"
  have zq: "e # xs = zs @ [q]" unfolding zs_def q_def by simp
  have pt: "ys @ [e] = p # ts" unfolding p_def ts_def by simp
  have "length (e # xs) = length (zs @ [q])" using zq by simp
  then have len: "length zs = length xs" by simp
  have "(e # xs) @ ys = (zs @ [q]) @ ys" by (simp only: zq)
  then have e1: "e # xs @ ys = zs @ q # ys" by simp
  have "xs @ (ys @ [e]) = xs @ (p # ts)" by (simp only: pt)
  then have e2: "xs @ ys @ [e] = xs @ p # ts" by simp
  have "(e # xs) @ a # ys = (zs @ [q]) @ a # ys" by (simp only: zq)
  then have e1': "e # xs @ a # ys = zs @ q # a # ys" by simp
  have "xs @ a # (ys @ [e]) = xs @ a # (p # ts)" by (simp only: pt)
  then have e2': "xs @ a # ys @ [e] = xs @ a # p # ts" by simp
  from wf have dist: "distinct (e # xs @ ys)"
    and nx: "map (\<lambda>a. next_of h (Some a)) (e # xs @ ys) = map Some (xs @ ys @ [e])"
    and pv: "map (\<lambda>a. prev_of h (Some a)) (xs @ ys @ [e]) = map Some (e # xs @ ys)"
    and sr: "map (\<lambda>a. map_option m_source (deref h (Some a))) (e # xs @ ys) = map (\<lambda>a. Some d) (e # xs @ ys)"
    and en: "m_end (containers h d) = Some e"
    and bg: "m_begin (containers h d) = Some (hd (xs @ ys @ [e]))"
    and sz: "m_size (containers h d) = Some (int (length (xs @ ys)))"
    by (simp_all add: wf_list_def)
  have valid: "x < a" if "x \<in> set (e # xs @ ys)" for x
    using wf_list_valid [OF wf] that unfolding a_def by simp
  have fresh: "a \<notin> set (e # xs @ ys)" using valid by blast
  have dist1: "distinct (zs @ q # ys)" using dist unfolding e1 .
  have "distinct (xs @ ys @ [e])" using dist by auto
  then have dist2: "distinct (xs @ p # ts)" unfolding e2 .
  have fresh1: "a \<notin> set (zs @ q # ys)" using fresh unfolding e1 .
  have "a \<notin> set (xs @ ys @ [e])" using fresh by auto
  then have fresh2: "a \<notin> set (xs @ p # ts)" unfolding e2 .
  have "map (\<lambda>a. next_of h (Some a)) (zs @ q # ys) = map Some (xs @ p # ts)"
    using nx unfolding e1 e2 .
  then have "map (\<lambda>a. next_of h (Some a)) zs @ next_of h (Some q) # map (\<lambda>a. next_of h (Some a)) ys
      = map Some xs @ Some p # map Some ts" by simp
  with len have nx1: "map (\<lambda>a. next_of h (Some a)) zs = map Some xs"
    and nx2: "next_of h (Some q) = Some p"
    and nx3: "map (\<lambda>a. next_of h (Some a)) ys = map Some ts"
    by auto
  have "map (\<lambda>a. prev_of h (Some a)) (xs @ p # ts) = map Some (zs @ q # ys)"
    using pv unfolding e1 e2 .
  then have "map (\<lambda>a. prev_of h (Some a)) xs @ prev_of h (Some p) # map (\<lambda>a. prev_of h (Some a)) ts
      = map Some zs @ Some q # map Some ys" by simp
  with len have pv1: "map (\<lambda>a. prev_of h (Some a)) xs = map Some zs"
    and pv2: "prev_of h (Some p) = Some q"
    and pv3: "map (\<lambda>a. prev_of h (Some a)) ts = map Some ys"
    by auto
  have pin: "p \<in> set (e # xs @ ys)" unfolding p_def by (cases ys) auto
  have "q \<in> set (e # xs)" unfolding q_def by (rule last_in_set) simp
  then have qin: "q \<in> set (e # xs @ ys)" by auto
  from pv2 obtain np where np: "deref h (Some p) = Some np" "m_prev np = Some q"
    by (blast dest: prev_of_deref)
  from sr pin have "map_option m_source (deref h (Some p)) = Some d"
    by (rule map_const_mem)
  with np have src: "m_source np = d" by simp
  have ql: "q < length (iterators h)" using valid [OF qin] by (simp add: a_def)
  from insert_exec [OF np(1) src np(2) ql sz en, of v]
  obtain h' where run: "insert_by_val d (Some p) v h = Some (h', Inr (Some a))"
    and l': "length (iterators h') = Suc a"
    and nx': "\<And>x. next_of h' (Some x) = (if x = a then Some p else if x = q then Some a else next_of h (Some x))"
    and pv': "\<And>x. prev_of h' (Some x) = (if x = p then Some a else if x = a then Some q else prev_of h (Some x))"
    and vl': "\<And>x. map_option m_value (deref h' (Some x)) =
        (if x = a then Some (Some v) else map_option m_value (deref h (Some x)))"
    and sr': "\<And>x. map_option m_source (deref h' (Some x)) =
        (if x = a then Some d else map_option m_source (deref h (Some x)))"
    and ct': "containers h' = (containers h)
        (d := \<lparr>m_begin = (if int (length (xs @ ys)) = 0 \<or> q = e then Some a else m_begin (containers h d)),
               m_end = Some e, m_size = Some (int (length (xs @ ys)) + 1)\<rparr>)"
    unfolding a_def by blast
  have qe: "q = e \<longleftrightarrow> xs = []"
    using dist by (cases xs rule: rev_cases) (auto simp: q_def)
  have N: "map (\<lambda>x. next_of h' (Some x)) (e # xs @ a # ys) = map Some (xs @ a # ys @ [e])"
    unfolding e1' e2' using dist1 fresh1 nx1 nx2 nx3 by (simp add: nx' map_if2)
  have P: "map (\<lambda>x. prev_of h' (Some x)) (xs @ a # ys @ [e]) = map Some (e # xs @ a # ys)"
    unfolding e1' e2' using dist2 fresh2 pv1 pv2 pv3 by (simp add: pv' map_if2)
  have S: "map (\<lambda>x. map_option m_source (deref h' (Some x))) (e # xs @ a # ys)
      = map (\<lambda>x. Some d) (e # xs @ a # ys)"
    using sr fresh by (simp add: sr' map_if1)
  have D: "distinct (e # xs @ a # ys)" using dist fresh by auto
  have B: "m_begin (containers h' d) = Some (hd (xs @ a # ys @ [e]))"
    using bg by (cases xs) (auto simp: ct' qe)
  have "wf_list h' d e (xs @ a # ys)"
    unfolding wf_list_def using N P S D B by (simp add: ct')
  with run l' vl' show ?thesis unfolding a_def p_def by blast
qed


lemma it_next_of: "next_of h (Some a) = Some b \<Longrightarrow> it_next (Some a) h = Some (h, Inr (Some b))"
  by (auto simp: next_of_def it_next_def ret_def split: option.splits)

lemma first_read:
  "map_option m_value (deref (store w) (listIterator u)) = Some (Some p) \<Longrightarrow>
   on_store (MapIterator_first u) w = Some (w, Inr (fst p))"
  by (auto simp: on_store_def on_data_def MapIterator_first_def bnd_def it_value_def ret_def
      split: option.splits)

lemma tree_find_spec:
  assumes "\<And>u. u \<in> set (inorder t) \<Longrightarrow> on_store (MapIterator_first u) w = Some (w, Inr (kf u))"
    and "sorted_wrt (<) (map kf (inorder t))" and "t \<noteq> XNull"
  shows "\<exists>l v r. tree_find t key w = Some (w, Inr (XNode l v r)) \<and> v \<in> set (inorder t) \<and>
     (\<forall>u\<in>set (inorder t). kf u < kf v \<longrightarrow> kf u < key) \<and>
     (\<forall>u\<in>set (inorder t). kf v < kf u \<longrightarrow> key < kf u)"
  using assms
proof (induction t)
  case XNull
  then show ?case by simp
next
  case (XNode l x r)
  have rd: "on_store (MapIterator_first x) w = Some (w, Inr (kf x))"
    using XNode.prems(1) by simp
  from XNode.prems(2) have sl: "sorted_wrt (<) (map kf (inorder l))"
    and sr: "sorted_wrt (<) (map kf (inorder r))"
    and lt: "\<forall>u\<in>set (inorder l). kf u < kf x"
    and gt: "\<forall>u\<in>set (inorder r). kf x < kf u"
    by (auto simp: sorted_wrt_append)
  consider "key = kf x" | "key < kf x" "l = XNull" | "key < kf x" "l \<noteq> XNull"
    | "kf x < key" "r = XNull" | "kf x < key" "r \<noteq> XNull"
    by (meson linorder_neqE)
  then show ?case
  proof cases
    case 1
    then show ?thesis by (simp add: bnd_def rd ret_def)
  next
    case 2
    then show ?thesis using gt by (auto simp: bnd_def rd ret_def)
  next
    case 3
    from XNode.IH(1) [OF _ sl 3(2)] XNode.prems(1)
    obtain l' v r' where f: "tree_find l key w = Some (w, Inr (XNode l' v r'))"
      and v: "v \<in> set (inorder l)"
      and a: "\<forall>u\<in>set (inorder l). kf u < kf v \<longrightarrow> kf u < key"
      and b: "\<forall>u\<in>set (inorder l). kf v < kf u \<longrightarrow> key < kf u"
      by auto
    have vx: "kf v < kf x" using lt v by blast
    have res: "tree_find (XNode l x r) key w = Some (w, Inr (XNode l' v r'))"
      using 3 f by (auto simp: bnd_def rd)
    have gtv: "\<forall>u\<in>set (inorder r). kf v < kf u" using gt vx by (blast intro: less_trans)
    have A: "\<forall>u\<in>set (inorder (XNode l x r)). kf u < kf v \<longrightarrow> kf u < key"
      using a vx gtv by (auto dest: less_asym)
    have B: "\<forall>u\<in>set (inorder (XNode l x r)). kf v < kf u \<longrightarrow> key < kf u"
      using b 3(1) gt by (auto intro: less_trans)
    from res v A B show ?thesis by auto
  next
    case 4
    then show ?thesis using lt by (auto simp: bnd_def rd ret_def)
  next
    case 5
    from XNode.IH(2) [OF _ sr 5(2)] XNode.prems(1)
    obtain l' v r' where f: "tree_find r key w = Some (w, Inr (XNode l' v r'))"
      and v: "v \<in> set (inorder r)"
      and a: "\<forall>u\<in>set (inorder r). kf u < kf v \<longrightarrow> kf u < key"
      and b: "\<forall>u\<in>set (inorder r). kf v < kf u \<longrightarrow> key < kf u"
      by auto
    have xv: "kf x < kf v" using gt v by blast
    have res: "tree_find (XNode l x r) key w = Some (w, Inr (XNode l' v r'))"
      using 5 f by (auto simp: bnd_def rd)
    have ltv: "\<forall>u\<in>set (inorder l). kf u < kf v" using lt xv by (blast intro: less_trans)
    have A: "\<forall>u\<in>set (inorder (XNode l x r)). kf u < kf v \<longrightarrow> kf u < key"
      using a 5(1) lt by (auto intro: less_trans)
    have B: "\<forall>u\<in>set (inorder (XNode l x r)). kf v < kf u \<longrightarrow> key < kf u"
      using b xv ltv by (auto dest: less_asym)
    from res v A B show ?thesis by auto
  qed
qed

lemma tree_insert_spec:
  assumes "\<And>u. u \<in> set (inorder t) \<Longrightarrow> on_store (MapIterator_first u) w = Some (w, Inr (kf u))"
    and "sorted_wrt (<) (map kf (inorder t))"
  shows "\<exists>t'. tree_insert t key it w = Some (w, Inr t') \<and>
     inorder t' = takeWhile (\<lambda>u. kf u \<le> key) (inorder t) @ it # dropWhile (\<lambda>u. kf u \<le> key) (inorder t)"
  using assms
proof (induction t)
  case XNull
  then show ?case by (simp add: ret_def)
next
  case (XNode l x r)
  have rd: "on_store (MapIterator_first x) w = Some (w, Inr (kf x))"
    using XNode.prems(1) by simp
  from XNode.prems(2) have sl: "sorted_wrt (<) (map kf (inorder l))"
    and sr: "sorted_wrt (<) (map kf (inorder r))"
    and lt: "\<forall>u\<in>set (inorder l). kf u < kf x"
    and gt: "\<forall>u\<in>set (inorder r). kf x < kf u"
    by (auto simp: sorted_wrt_append)
  show ?case
  proof (cases "key < kf x")
    case True
    from XNode.IH(1) [OF _ sl] XNode.prems(1)
    obtain l' where f: "tree_insert l key it w = Some (w, Inr l')"
      and i: "inorder l' = takeWhile (\<lambda>u. kf u \<le> key) (inorder l) @ it # dropWhile (\<lambda>u. kf u \<le> key) (inorder l)"
      by auto
    from True show ?thesis
      by (auto simp: bnd_def rd ret_def f i takeWhile_append dropWhile_append)
  next
    case False
    from XNode.IH(2) [OF _ sr] XNode.prems(1)
    obtain r' where f: "tree_insert r key it w = Some (w, Inr r')"
      and i: "inorder r' = takeWhile (\<lambda>u. kf u \<le> key) (inorder r) @ it # dropWhile (\<lambda>u. kf u \<le> key) (inorder r)"
      by auto
    have "\<forall>u\<in>set (inorder l). kf u \<le> key" using lt False by force
    with False show ?thesis
      by (auto simp: bnd_def rd ret_def f i takeWhile_append dropWhile_append)
  qed
qed


lemma deref_nth: "deref h (Some a) = Some n \<Longrightarrow> n = iterators h ! a \<and> a < length (iterators h)"
  by (auto simp: deref_def split: if_splits)

lemma walk_chain:
  "map (\<lambda>a. next_of h (Some a)) as = map Some (tl (as @ [e])) \<Longrightarrow> e \<notin> set as \<Longrightarrow>
   length as \<le> fuel \<Longrightarrow>
   walk fuel h (Some (hd (as @ [e]))) (Some e) = Some (map (\<lambda>a. m_value (iterators h ! a)) as)"
proof (induction as arbitrary: fuel)
  case Nil
  then show ?case by (cases fuel) simp_all
next
  case (Cons a as)
  then obtain f where f: "fuel = Suc f" by (cases fuel) auto
  from Cons.prems(1) have nx: "next_of h (Some a) = Some (hd (as @ [e]))"
    and rest: "map (\<lambda>a. next_of h (Some a)) as = map Some (tl (as @ [e]))"
    by (cases as; simp)+
  from nx obtain n where n: "deref h (Some a) = Some n" "m_next n = Some (hd (as @ [e]))"
    by (auto simp: next_of_def split: option.splits)
  from n(1) have "n = iterators h ! a" by (simp add: deref_nth)
  moreover have "walk f h (Some (hd (as @ [e]))) (Some e) = Some (map (\<lambda>a. m_value (iterators h ! a)) as)"
    using Cons.IH [OF rest] Cons.prems f by simp
  ultimately show ?case using Cons.prems(2) n f by simp
qed

lemma distinct_bounded_length:
  assumes "distinct (xs :: nat list)" and "\<forall>x\<in>set xs. x < n"
  shows "length xs \<le> n"
proof -
  have "card (set xs) \<le> card {..<n}" using assms(2) by (intro card_mono) auto
  then show ?thesis using assms(1) by (simp add: distinct_card)
qed

lemma wf_list_elements:
  assumes wf: "wf_list h d e ns"
  shows "elements h d = Some (map (\<lambda>a. m_value (iterators h ! a)) ns)"
proof -
  from wf have nx: "map (\<lambda>a. next_of h (Some a)) (e # ns) = map Some (ns @ [e])"
    and dist: "distinct (e # ns)"
    and bg: "m_begin (containers h d) = Some (hd (ns @ [e]))"
    and en: "m_end (containers h d) = Some e"
    by (simp_all add: wf_list_def)
  from nx have "map (\<lambda>a. next_of h (Some a)) ns = map Some (tl (ns @ [e]))"
    by (cases ns) simp_all
  moreover have "e \<notin> set ns" using dist by simp
  moreover have "length ns \<le> length (iterators h)"
    using dist wf_list_valid [OF wf] by (intro distinct_bounded_length) auto
  ultimately show ?thesis
    unfolding elements_def bg en by (rule walk_chain)
qed

lemma wf_TreeMap_value:
  assumes "wf_TreeMap this w e ns ps" and "i < length ns"
  shows "map_option m_value (deref (store w) (Some (ns ! i))) = Some (Some (ps ! i))"
    and "m_value (iterators (store w) ! (ns ! i)) = Some (ps ! i)"
proof -
  from assms(1) have "map (\<lambda>a. map_option m_value (deref (store w) (Some a))) ns
      = map (\<lambda>p. Some (Some p)) ps"
    by (simp add: wf_TreeMap_def)
  from map_eq_nth [OF this assms(2)]
  show v: "map_option m_value (deref (store w) (Some (ns ! i))) = Some (Some (ps ! i))" .
  then show "m_value (iterators (store w) ! (ns ! i)) = Some (ps ! i)"
    by (auto dest: deref_nth)
qed

lemma wf_TreeMap_length: "wf_TreeMap this w e ns ps \<Longrightarrow> length ps = length ns"
  unfolding wf_TreeMap_def by (metis length_map)

lemma wf_TreeMap_elements:
  assumes wf: "wf_TreeMap this w e ns ps"
  shows "elements (store w) (data w) = Some (map Some ps)"
proof -
  from wf have "wf_list (store w) (data w) e ns" by (simp add: wf_TreeMap_def)
  then have "elements (store w) (data w) = Some (map (\<lambda>a. m_value (iterators (store w) ! a)) ns)"
    by (rule wf_list_elements)
  moreover have "map (\<lambda>a. m_value (iterators (store w) ! a)) ns = map Some ps"
    using wf_TreeMap_value(2) [OF wf] wf_TreeMap_length [OF wf]
    by (auto simp: list_eq_iff_nth_eq)
  ultimately show ?thesis by simp
qed

lemma TreeMap_descent:
  assumes wf: "wf_TreeMap this w e ns ps" and ne: "ns \<noteq> []"
  shows "\<exists>l v r i. tree_find (tree w) key w = Some (w, Inr (XNode l v r)) \<and> i < length ns \<and>
     v = handle this (ns ! i) \<and>
     on_store (MapIterator_first v) w = Some (w, Inr (fst (ps ! i))) \<and>
     (\<forall>m<length ps. fst (ps ! m) < fst (ps ! i) \<longrightarrow> fst (ps ! m) < key) \<and>
     (\<forall>m<length ps. fst (ps ! i) < fst (ps ! m) \<longrightarrow> key < fst (ps ! m))"
proof -
  define kf where "kf u = fst (the (m_value (iterators (store w) ! the (listIterator u))))" for u :: MapIterator
  have len: "length ps = length ns" using wf by (rule wf_TreeMap_length)
  from wf have ino: "inorder (tree w) = map (handle this) ns"
    and srt: "sorted_wrt (<) (map fst ps)"
    by (simp_all add: wf_TreeMap_def)
  have kf: "kf (handle this (ns ! i)) = fst (ps ! i)" if "i < length ns" for i
    using wf_TreeMap_value(2) [OF wf that] by (simp add: kf_def handle_def)
  have rd: "on_store (MapIterator_first (handle this (ns ! i))) w = Some (w, Inr (fst (ps ! i)))"
    if "i < length ns" for i
    using wf_TreeMap_value(1) [OF wf that] by (intro first_read) (simp add: handle_def)
  have rd': "on_store (MapIterator_first u) w = Some (w, Inr (kf u))" if "u \<in> set (inorder (tree w))" for u
    using that rd kf by (auto simp: ino in_set_conv_nth)
  have "map kf (inorder (tree w)) = map fst ps"
    using kf len by (auto simp: ino list_eq_iff_nth_eq)
  then have srt': "sorted_wrt (<) (map kf (inorder (tree w)))" using srt by simp
  have "tree w \<noteq> XNull" using ino ne by auto
  from tree_find_spec [of "tree w" w kf, OF rd' srt' this, of key]
  obtain l v r where f: "tree_find (tree w) key w = Some (w, Inr (XNode l v r))"
    and v: "v \<in> set (inorder (tree w))"
    and a: "\<forall>u\<in>set (inorder (tree w)). kf u < kf v \<longrightarrow> kf u < key"
    and b: "\<forall>u\<in>set (inorder (tree w)). kf v < kf u \<longrightarrow> key < kf u"
    by blast
  from v obtain i where i: "i < length ns" "v = handle this (ns ! i)"
    by (auto simp: ino in_set_conv_nth)
  have mem: "handle this (ns ! m) \<in> set (inorder (tree w))" if "m < length ps" for m
    using that len by (simp add: ino)
  have A: "\<forall>m<length ps. fst (ps ! m) < fst (ps ! i) \<longrightarrow> fst (ps ! m) < key"
    using a mem kf i len by (metis)
  have B: "\<forall>m<length ps. fst (ps ! i) < fst (ps ! m) \<longrightarrow> key < fst (ps ! m)"
    using b mem kf i len by (metis)
  from f i rd [OF i(1)] A B show ?thesis by blast
qed


lemma takeWhile_len:
  assumes "j \<le> length xs" and "\<forall>m<j. P (xs ! m)" and "j < length xs \<longrightarrow> \<not> P (xs ! j)"
  shows "length (takeWhile P xs) = j"
proof -
  have "takeWhile P xs = take j xs"
    using assms by (intro takeWhile_eq_take_P_nth) auto
  then show ?thesis using assms(1) by simp
qed

lemma lower_index:
  assumes srt: "sorted_wrt (<) (map fst ps)" and i: "i < length ps"
    and A: "\<forall>m<length ps. fst (ps ! m) < fst (ps ! i) \<longrightarrow> fst (ps ! m) < key"
    and B: "\<forall>m<length ps. fst (ps ! i) < fst (ps ! m) \<longrightarrow> key < fst (ps ! m)"
  shows "length (takeWhile (\<lambda>p. fst p < (key :: 'k :: linorder)) ps) = (if fst (ps ! i) < key then Suc i else i)"
proof -
  have mono: "fst (ps ! m) < fst (ps ! n)" if "m < n" "n < length ps" for m n
    using srt that by (simp add: sorted_wrt_iff_nth_less)
  show ?thesis
  proof (cases "fst (ps ! i) < key")
    case True
    have "\<forall>m<Suc i. fst (ps ! m) < key"
    proof (intro allI impI)
      fix m assume "m < Suc i"
      then consider "m < i" | "m = i" by linarith
      then show "fst (ps ! m) < key"
        using mono [of m i] i True by cases (auto intro: less_trans)
    qed
    moreover have "Suc i < length ps \<longrightarrow> \<not> fst (ps ! Suc i) < key"
      using mono [of i "Suc i"] B by (auto dest: less_asym)
    ultimately show ?thesis using i True by (simp add: takeWhile_len)
  next
    case False
    have "\<forall>m<i. fst (ps ! m) < key" using mono [of _ i] A i by auto
    then show ?thesis using i False by (simp add: takeWhile_len)
  qed
qed

lemma upper_index:
  assumes srt: "sorted_wrt (<) (map fst ps)" and i: "i < length ps"
    and A: "\<forall>m<length ps. fst (ps ! m) < fst (ps ! i) \<longrightarrow> fst (ps ! m) < key"
    and B: "\<forall>m<length ps. fst (ps ! i) < fst (ps ! m) \<longrightarrow> key < fst (ps ! m)"
  shows "length (takeWhile (\<lambda>p. fst p \<le> (key :: 'k :: linorder)) ps) = (if key < fst (ps ! i) then i else Suc i)"
proof -
  have mono: "fst (ps ! m) < fst (ps ! n)" if "m < n" "n < length ps" for m n
    using srt that by (simp add: sorted_wrt_iff_nth_less)
  show ?thesis
  proof (cases "key < fst (ps ! i)")
    case True
    have "\<forall>m<i. fst (ps ! m) \<le> key" using mono [of _ i] A i by (auto intro: less_imp_le)
    then show ?thesis using i True by (simp add: takeWhile_len)
  next
    case False
    have "\<forall>m<Suc i. fst (ps ! m) \<le> key"
    proof (intro allI impI)
      fix m assume "m < Suc i"
      then consider "m < i" | "m = i" by linarith
      then show "fst (ps ! m) \<le> key"
        using mono [of m i] i False by cases auto
    qed
    moreover have "Suc i < length ps \<longrightarrow> \<not> fst (ps ! Suc i) \<le> key"
      using mono [of i "Suc i"] B by auto
    ultimately show ?thesis using i False by (simp add: takeWhile_len)
  qed
qed

lemma inorder_Nil: "inorder t = [] \<Longrightarrow> t = XNull"
  by (cases t) auto

lemma map_end_wf:
  assumes "wf_TreeMap this w e ns ps"
  shows "map_end this w = Some (w, Inr (handle this e))"
  using assms
  by (simp add: wf_TreeMap_def wf_list_def map_end_def bnd_def on_data_def List_end_def
      this_end_def ret_def handle_def)

lemma next_wf:
  assumes wf: "wf_TreeMap this w e ns ps" and i: "i < length ns"
  shows "on_store (MapIterator_next (handle this (ns ! i))) w
     = Some (w, Inr (handle this ((ns @ [e]) ! Suc i)))"
proof -
  from wf have "map (\<lambda>a. next_of (store w) (Some a)) (e # ns) = map Some (ns @ [e])"
    by (simp add: wf_TreeMap_def wf_list_def)
  from map_eq_nth [OF this, of "Suc i"] i
  have "next_of (store w) (Some (ns ! i)) = Some ((ns @ [e]) ! Suc i)" by simp
  then have "it_next (Some (ns ! i)) (store w) = Some (store w, Inr (Some ((ns @ [e]) ! Suc i)))"
    by (rule it_next_of)
  then show ?thesis
    by (simp add: on_store_def on_data_def MapIterator_next_def bnd_def ret_def handle_def)
qed

lemma this_tree_bnd: "bnd this_tree f w = f (tree w) w"
  by (simp add: bnd_def this_tree_def ret_def)

lemma bnd_Inr: "m w = Some (w', Inr x) \<Longrightarrow> bnd m f w = f x w'"
  by (simp add: bnd_def)

lemma bnd_ret: "bnd (ret x) f = f x"
  by (simp add: bnd_def ret_def fun_eq_iff)

lemma bounds:
  assumes wf: "wf_TreeMap this w e ns ps"
  shows "lowerBound this key w
       = Some (w, Inr (handle this ((ns @ [e]) ! length (takeWhile (\<lambda>p. fst p < key) ps))))"
    and "upperBound this key w
       = Some (w, Inr (handle this ((ns @ [e]) ! length (takeWhile (\<lambda>p. fst p \<le> key) ps))))"
proof -
  have len: "length ps = length ns" using wf by (rule wf_TreeMap_length)
  from wf have ino: "inorder (tree w) = map (handle this) ns"
    and srt: "sorted_wrt (<) (map fst ps)"
    by (simp_all add: wf_TreeMap_def)
  show "lowerBound this key w
       = Some (w, Inr (handle this ((ns @ [e]) ! length (takeWhile (\<lambda>p. fst p < key) ps))))"
  proof (cases "ns = []")
    case True
    then have "tree w = XNull" using ino by (simp add: inorder_Nil)
    then show ?thesis using True len map_end_wf [OF wf]
      by (simp add: lowerBound_def this_tree_bnd bnd_ret)
  next
    case False
    from TreeMap_descent [OF wf False, of key]
    obtain l v r i where f: "tree_find (tree w) key w = Some (w, Inr (XNode l v r))"
      and i: "i < length ns" and v: "v = handle this (ns ! i)"
      and rd: "on_store (MapIterator_first v) w = Some (w, Inr (fst (ps ! i)))"
      and A: "\<forall>m<length ps. fst (ps ! m) < fst (ps ! i) \<longrightarrow> fst (ps ! m) < key"
      and B: "\<forall>m<length ps. fst (ps ! i) < fst (ps ! m) \<longrightarrow> key < fst (ps ! m)"
      by blast
    have ix: "length (takeWhile (\<lambda>p. fst p < key) ps) = (if fst (ps ! i) < key then Suc i else i)"
      using srt i A B len by (intro lower_index) auto
    have f': "bnd (tree_find (tree w) key) g w = g (XNode l v r) w" for g :: "XTree \<Rightarrow> ('a, 'b, MapIterator) tmap"
      using f by (simp add: bnd_def)
    have rd': "bnd (on_store (MapIterator_first v)) g w = g (fst (ps ! i)) w" for g :: "'a \<Rightarrow> ('a, 'b, MapIterator) tmap"
      using rd by (simp add: bnd_def)
    have "lowerBound this key w
        = (if fst (ps ! i) < key then on_store (MapIterator_next v) w else ret v w)"
      by (simp add: lowerBound_def this_tree_bnd f' node_value_def bnd_ret rd')
    also have "\<dots> = Some (w, Inr (handle this ((ns @ [e]) ! (if fst (ps ! i) < key then Suc i else i))))"
      using i next_wf [OF wf i] by (simp add: v ret_def nth_append)
    finally show ?thesis by (simp only: ix)
  qed
  show "upperBound this key w
       = Some (w, Inr (handle this ((ns @ [e]) ! length (takeWhile (\<lambda>p. fst p \<le> key) ps))))"
  proof (cases "ns = []")
    case True
    then have "tree w = XNull" using ino by (simp add: inorder_Nil)
    then show ?thesis using True len map_end_wf [OF wf]
      by (simp add: upperBound_def this_tree_bnd bnd_ret)
  next
    case False
    from TreeMap_descent [OF wf False, of key]
    obtain l v r i where f: "tree_find (tree w) key w = Some (w, Inr (XNode l v r))"
      and i: "i < length ns" and v: "v = handle this (ns ! i)"
      and rd: "on_store (MapIterator_first v) w = Some (w, Inr (fst (ps ! i)))"
      and A: "\<forall>m<length ps. fst (ps ! m) < fst (ps ! i) \<longrightarrow> fst (ps ! m) < key"
      and B: "\<forall>m<length ps. fst (ps ! i) < fst (ps ! m) \<longrightarrow> key < fst (ps ! m)"
      by blast
    have ix: "length (takeWhile (\<lambda>p. fst p \<le> key) ps) = (if key < fst (ps ! i) then i else Suc i)"
      using srt i A B len by (intro upper_index) auto
    have f': "bnd (tree_find (tree w) key) g w = g (XNode l v r) w" for g :: "XTree \<Rightarrow> ('a, 'b, MapIterator) tmap"
      using f by (simp add: bnd_def)
    have rd': "bnd (on_store (MapIterator_first v)) g w = g (fst (ps ! i)) w" for g :: "'a \<Rightarrow> ('a, 'b, MapIterator) tmap"
      using rd by (simp add: bnd_def)
    have "upperBound this key w
        = (if key < fst (ps ! i) then ret v w else on_store (MapIterator_next v) w)"
      by (auto simp add: upperBound_def this_tree_bnd f' node_value_def bnd_ret rd')
    also have "\<dots> = Some (w, Inr (handle this ((ns @ [e]) ! (if key < fst (ps ! i) then i else Suc i))))"
      using i next_wf [OF wf i] by (simp add: v ret_def nth_append)
    finally show ?thesis by (simp only: ix)
  qed
qed


lemma readable_keys:
  assumes "map (\<lambda>a. map_option m_value (deref (store w) (Some a))) ns = map (\<lambda>p. Some (Some p)) ps"
  shows "\<exists>kf. (\<forall>i<length ns. kf (handle this (ns ! i)) = fst (ps ! i)) \<and>
     (\<forall>u\<in>set (map (handle this) ns). on_store (MapIterator_first u) w = Some (w, Inr (kf u)))"
proof -
  define kf where "kf u = fst (the (m_value (iterators (store w) ! the (listIterator u))))"
    for u :: MapIterator
  have v: "map_option m_value (deref (store w) (Some (ns ! i))) = Some (Some (ps ! i))"
    if "i < length ns" for i
    using map_eq_nth [OF assms that] .
  have kf: "kf (handle this (ns ! i)) = fst (ps ! i)" if "i < length ns" for i
    using v [OF that] by (auto simp: kf_def handle_def dest: deref_nth)
  have "on_store (MapIterator_first (handle this (ns ! i))) w = Some (w, Inr (fst (ps ! i)))"
    if "i < length ns" for i
    using v [OF that] by (intro first_read) (simp add: handle_def)
  then have "\<forall>u\<in>set (map (handle this) ns). on_store (MapIterator_first u) w = Some (w, Inr (kf u))"
    using kf by (auto simp: in_set_conv_nth)
  with kf show ?thesis by blast
qed

lemma takeWhile_nth_P: "m < length (takeWhile P xs) \<Longrightarrow> P (xs ! m)"
  by (metis nth_mem set_takeWhileD takeWhile_nth)

lemma dropWhile_sorted_ge:
  "sorted_wrt (<) (map fst ps) \<Longrightarrow> p \<in> set (dropWhile (\<lambda>p. fst p < key) ps) \<Longrightarrow>
   (key :: 'k :: linorder) \<le> fst p"
  by (induction ps) (auto split: if_splits)

lemma insertByPair_present:
  assumes wf: "wf_TreeMap this w e ns ps" and mem: "fst pair \<in> fst ` set ps"
  shows "TreeMap_insertByPair this pair w
       = Some (w, Inr (handle this (ns ! length (takeWhile (\<lambda>p. fst p < fst pair) ps)), False)) \<and>
     length (takeWhile (\<lambda>p. fst p < fst pair) ps) < length ps \<and>
     fst (ps ! length (takeWhile (\<lambda>p. fst p < fst pair) ps)) = fst pair"
proof -
  have len: "length ps = length ns" using wf by (rule wf_TreeMap_length)
  from wf have srt: "sorted_wrt (<) (map fst ps)" by (simp add: wf_TreeMap_def)
  from mem have "ns \<noteq> []" using len by auto
  from TreeMap_descent [OF wf this, of "fst pair"]
  obtain l v r i where f: "tree_find (tree w) (fst pair) w = Some (w, Inr (XNode l v r))"
    and i: "i < length ns" and v: "v = handle this (ns ! i)"
    and rd: "on_store (MapIterator_first v) w = Some (w, Inr (fst (ps ! i)))"
    and A: "\<forall>m<length ps. fst (ps ! m) < fst (ps ! i) \<longrightarrow> fst (ps ! m) < fst pair"
    and B: "\<forall>m<length ps. fst (ps ! i) < fst (ps ! m) \<longrightarrow> fst pair < fst (ps ! m)"
    by blast
  from mem obtain m where m: "m < length ps" "fst (ps ! m) = fst pair"
    by (auto simp: in_set_conv_nth)
  have k: "fst (ps ! i) = fst pair"
    using A B m by (metis less_irrefl linorder_neqE)
  have ix: "length (takeWhile (\<lambda>p. fst p < fst pair) ps) = i"
    using lower_index [OF srt _ A B] i len k by simp
  have f': "bnd (tree_find (tree w) (fst pair)) g w = g (XNode l v r) w"
    for g :: "XTree \<Rightarrow> ('a, 'b, MapIterator \<times> bool) tmap"
    using f by (simp add: bnd_def)
  have rd': "bnd (on_store (MapIterator_first v)) g w = g (fst (ps ! i)) w"
    for g :: "'a \<Rightarrow> ('a, 'b, bool) tmap"
    using rd by (simp add: bnd_def)
  have "bnd (bnd (node_value (XNode l v r)) (\<lambda>v. bnd (on_store (MapIterator_first v)) (\<lambda>k. ret (k = fst pair)))) g w
      = g True w" for g :: "bool \<Rightarrow> ('a, 'b, MapIterator \<times> bool) tmap"
    by (simp add: node_value_def bnd_def ret_def rd k)
  then have "TreeMap_insertByPair this pair w = Some (w, Inr (v, False))"
    by (simp add: TreeMap_insertByPair_def this_tree_bnd f' node_value_def bnd_ret) (simp add: ret_def)
  then show ?thesis using ix i len k v by simp
qed


lemma absent_neq: "x \<in> set ps \<Longrightarrow> k \<notin> fst ` set ps \<Longrightarrow> fst x \<noteq> k"
  by (metis imageI)

lemma insertByPair_absent:
  assumes wf: "wf_TreeMap this w e ns ps" and abs: "fst pair \<notin> fst ` set ps"
  shows "\<exists>w'. TreeMap_insertByPair this pair w
         = Some (w', Inr (handle this (length (iterators (store w))), True)) \<and>
     wf_TreeMap this w' e
       (take (length (takeWhile (\<lambda>p. fst p < fst pair) ps)) ns @ length (iterators (store w)) #
        drop (length (takeWhile (\<lambda>p. fst p < fst pair) ps)) ns)
       (take (length (takeWhile (\<lambda>p. fst p < fst pair) ps)) ps @ pair #
        drop (length (takeWhile (\<lambda>p. fst p < fst pair) ps)) ps)"
proof -
  define key where "key = fst pair"
  define j where "j = length (takeWhile (\<lambda>p. fst p < key) ps)"
  define a where "a = length (iterators (store w))"
  define p where "p = (ns @ [e]) ! j"
  have len: "length ps = length ns" using wf by (rule wf_TreeMap_length)
  from wf have srt: "sorted_wrt (<) (map fst ps)"
    and ino: "inorder (tree w) = map (handle this) ns"
    and wfl: "wf_list (store w) (data w) e ns"
    and val: "map (\<lambda>a. map_option m_value (deref (store w) (Some a))) ns = map (\<lambda>p. Some (Some p)) ps"
    by (simp_all add: wf_TreeMap_def)
  have jle: "j \<le> length ns" unfolding j_def using len length_takeWhile_le [of _ ps] by metis
  have lb: "lowerBound this key w = Some (w, Inr (handle this p))"
    unfolding p_def j_def by (rule bounds(1) [OF wf])
  \<comment> \<open>the descent, the test for an equal key, and the hint\<close>
  have E1: "TreeMap_insertByPair this pair w
      = bnd (TreeMap_insert_hint this (handle this p) pair) (\<lambda>it'. ret (it', True)) w"
  proof (cases "ns = []")
    case True
    then have t: "tree w = XNull" using ino by (simp add: inorder_Nil)
    have "p = e" using True jle by (simp add: p_def)
    then have "bnd (map_end this) g w = g (handle this p) w"
      for g :: "MapIterator \<Rightarrow> ('a, 'b, MapIterator \<times> bool) tmap"
      using map_end_wf [OF wf] by (simp add: bnd_def)
    then show ?thesis
      by (simp add: TreeMap_insertByPair_def this_tree_bnd t bnd_ret)
  next
    case False
    from TreeMap_descent [OF wf False, of key]
    obtain l v r i where f: "tree_find (tree w) key w = Some (w, Inr (XNode l v r))"
      and i: "i < length ns" and v: "v = handle this (ns ! i)"
      and rd: "on_store (MapIterator_first v) w = Some (w, Inr (fst (ps ! i)))"
      by blast
    have "ps ! i \<in> set ps" using i len by simp
    then have k: "fst (ps ! i) \<noteq> key" using abs unfolding key_def by (rule absent_neq)
    have f': "bnd (tree_find (tree w) key) g w = g (XNode l v r) w"
      for g :: "XTree \<Rightarrow> ('a, 'b, 'r) tmap"
      using f by (simp add: bnd_def)
    have c: "bnd (bnd (node_value (XNode l v r)) (\<lambda>v. bnd (on_store (MapIterator_first v)) (\<lambda>k. ret (k = key)))) g w
        = g False w" for g :: "bool \<Rightarrow> ('a, 'b, MapIterator \<times> bool) tmap"
      by (simp add: node_value_def bnd_def ret_def rd k)
    have "lowerBound this key w
        = bnd (node_value (XNode l v r)) (\<lambda>v. bnd (on_store (MapIterator_first v))
            (\<lambda>k. if k < key then on_store (MapIterator_next v) else ret v)) w"
      by (simp add: lowerBound_def this_tree_bnd f')
    with lb have h: "bnd (bnd (node_value (XNode l v r)) (\<lambda>v. bnd (on_store (MapIterator_first v))
            (\<lambda>k. if k < key then on_store (MapIterator_next v) else ret v))) g w = g (handle this p) w"
      for g :: "MapIterator \<Rightarrow> ('a, 'b, MapIterator \<times> bool) tmap"
      by (simp add: bnd_def)
    show ?thesis
      unfolding TreeMap_insertByPair_def key_def [symmetric]
      by (simp add: this_tree_bnd f' c h)
  qed
  \<comment> \<open>the new node in the list\<close>
  have pos: "hd (drop j ns @ [e]) = p"
    using jle by (simp add: p_def hd_drop_conv_nth nth_append hd_append)
  have "wf_list (store w) (data w) e (take j ns @ drop j ns)" using wfl by simp
  from wf_list_insert [OF this, of pair]
  obtain h' where run: "insert_by_val (data w) (Some p) pair (store w) = Some (h', Inr (Some a))"
    and wfl': "wf_list h' (data w) e (take j ns @ a # drop j ns)"
    and vl': "\<And>x. map_option m_value (deref h' (Some x)) =
        (if x = a then Some (Some pair) else map_option m_value (deref (store w) (Some x)))"
    unfolding pos a_def by blast
  define w1 where "w1 = w\<lparr>store := h'\<rparr>"
  have od: "on_data (\<lambda>d. List_insert 0 d (InsertVal (listIterator (handle this p)) pair)) w
      = Some (w1, Inr (Some a))"
    by (simp add: on_data_def handle_def run w1_def)
  \<comment> \<open>the new handle in the tree\<close>
  have fresh: "a \<notin> set ns" using wf_list_valid [OF wfl] unfolding a_def by auto
  have val1: "map (\<lambda>x. map_option m_value (deref (store w1) (Some x))) ns = map (\<lambda>p. Some (Some p)) ps"
    using val fresh by (simp add: w1_def vl' map_if1)
  from readable_keys [OF val1, of this]
  obtain kf where kf: "\<And>i. i < length ns \<Longrightarrow> kf (handle this (ns ! i)) = fst (ps ! i)"
    and rd1: "\<And>u. u \<in> set (map (handle this) ns) \<Longrightarrow>
       on_store (MapIterator_first u) w1 = Some (w1, Inr (kf u))"
    by blast
  have t1: "tree w1 = tree w" by (simp add: w1_def)
  have "map kf (map (handle this) ns) = map fst ps"
    using kf len by (auto simp: list_eq_iff_nth_eq)
  then have srt1: "sorted_wrt (<) (map kf (inorder (tree w)))" using srt ino by simp
  from tree_insert_spec [of "tree w" w1 kf key "handle this a"] rd1 srt1 ino
  obtain t' where ti: "tree_insert (tree w) key (handle this a) w1 = Some (w1, Inr t')"
    and it: "inorder t' = takeWhile (\<lambda>u. kf u \<le> key) (map (handle this) ns) @ handle this a #
       dropWhile (\<lambda>u. kf u \<le> key) (map (handle this) ns)"
    by auto
  have lq: "length (takeWhile (\<lambda>u. kf u \<le> key) (map (handle this) ns)) = j"
  proof (rule takeWhile_len)
    show "j \<le> length (map (handle this) ns)" using jle by simp
    show "\<forall>m<j. kf (map (handle this) ns ! m) \<le> key"
    proof (intro allI impI)
      fix m assume m: "m < j"
      then have "fst (ps ! m) < key" unfolding j_def by (rule takeWhile_nth_P)
      then show "kf (map (handle this) ns ! m) \<le> key" using m jle kf by simp
    qed
    show "j < length (map (handle this) ns) \<longrightarrow> \<not> kf (map (handle this) ns ! j) \<le> key"
    proof
      assume "j < length (map (handle this) ns)"
      then have jl: "j < length ps" using len by simp
      then have "\<not> fst (ps ! j) < key" unfolding j_def by (rule nth_length_takeWhile)
      moreover have "ps ! j \<in> set ps" using jl by simp
      then have "fst (ps ! j) \<noteq> key" using abs unfolding key_def by (rule absent_neq)
      ultimately show "\<not> kf (map (handle this) ns ! j) \<le> key" using jl len kf by simp
    qed
  qed
  have it': "inorder t' = map (handle this) (take j ns @ a # drop j ns)"
    using takeWhile_eq_take [of "\<lambda>u. kf u \<le> key" "map (handle this) ns"]
      dropWhile_eq_drop [of "\<lambda>u. kf u \<le> key" "map (handle this) ns"] jle
    by (simp add: it lq take_map drop_map min_absorb2)
  have "map_option m_value (deref (store w1) (listIterator (handle this a))) = Some (Some pair)"
    by (simp add: w1_def vl' handle_def)
  then have fa: "on_store (MapIterator_first (handle this a)) w1 = Some (w1, Inr key)"
    unfolding key_def by (rule first_read)
  define w' where "w' = w1\<lparr>tree := t'\<rparr>"
  have hi: "TreeMap_handleInsert (handle this a) w1 = Some (w', Inr ())"
    by (simp add: TreeMap_handleInsert_def this_tree_def t1 bnd_def fa ti set_tree_def ret_def w'_def)
  have "TreeMap_insert_hint this (handle this p) pair w = Some (w', Inr (handle this a))"
    using od hi by (simp add: TreeMap_insert_hint_def bnd_def ret_def handle_def)
  with E1 have res: "TreeMap_insertByPair this pair w = Some (w', Inr (handle this a, True))"
    by (simp add: bnd_def ret_def)
  \<comment> \<open>the new state is well formed\<close>
  have tk: "take j ps = takeWhile (\<lambda>p. fst p < key) ps"
    unfolding j_def by (rule takeWhile_eq_take [symmetric])
  have dr: "drop j ps = dropWhile (\<lambda>p. fst p < key) ps"
    unfolding j_def by (rule dropWhile_eq_drop [symmetric])
  have lo: "\<forall>x\<in>set (take j ps). fst x < key"
    unfolding tk by (auto dest: set_takeWhileD)
  have hi': "\<forall>x\<in>set (drop j ps). key < fst x"
  proof
    fix x assume x: "x \<in> set (drop j ps)"
    then have "key \<le> fst x" unfolding dr using srt by (blast intro: dropWhile_sorted_ge)
    moreover have "x \<in> set ps" using x by (rule in_set_dropD)
    then have "fst x \<noteq> key" using abs unfolding key_def by (rule absent_neq)
    ultimately show "key < fst x" by simp
  qed
  have s1: "sorted_wrt (<) (map fst (take j ps))"
    using sorted_wrt_take [OF srt, of j] by (simp add: take_map)
  have s2: "sorted_wrt (<) (map fst (drop j ps))"
    using sorted_wrt_drop [OF srt, of j] by (simp add: drop_map)
  have srt': "sorted_wrt (<) (map fst (take j ps @ pair # drop j ps))"
    using lo hi' s1 s2 unfolding key_def by (auto simp: sorted_wrt_append intro: less_trans)
  have val2: "map (\<lambda>x. map_option m_value (deref h' (Some x))) ns = map (\<lambda>p. Some (Some p)) ps"
    using val1 by (simp add: w1_def)
  have "take j (map (\<lambda>x. map_option m_value (deref h' (Some x))) ns) = take j (map (\<lambda>p. Some (Some p)) ps)"
    by (simp only: val2)
  then have v1: "map (\<lambda>x. map_option m_value (deref h' (Some x))) (take j ns)
      = map (\<lambda>p. Some (Some p)) (take j ps)"
    by (simp only: take_map)
  have "drop j (map (\<lambda>x. map_option m_value (deref h' (Some x))) ns) = drop j (map (\<lambda>p. Some (Some p)) ps)"
    by (simp only: val2)
  then have v2: "map (\<lambda>x. map_option m_value (deref h' (Some x))) (drop j ns)
      = map (\<lambda>p. Some (Some p)) (drop j ps)"
    by (simp only: drop_map)
  have va: "map_option m_value (deref h' (Some a)) = Some (Some pair)" by (simp add: vl')
  have val': "map (\<lambda>x. map_option m_value (deref h' (Some x))) (take j ns @ a # drop j ns)
      = map (\<lambda>p. Some (Some p)) (take j ps @ pair # drop j ps)"
    by (simp only: map_append list.map v1 v2 va)
  have "wf_TreeMap this w' e (take j ns @ a # drop j ns) (take j ps @ pair # drop j ps)"
    unfolding wf_TreeMap_def using wfl' val' srt' it'
    by (simp add: w'_def w1_def)
  with res show ?thesis unfolding a_def j_def key_def by blast
qed


lemma TreeMap_constructor_wf:
  "\<exists>w. TreeMap_constructor d h = Some (w, Inr ()) \<and> wf_TreeMap this w (length (iterators h)) [] []"
  by (simp add: TreeMap_constructor_def bnd_def on_data_def List_clear_def new_ListIterator_def
      setPrev_def setNext_def set_begin_def set_end_def set_size_def ret_def set_tree_def
      wf_TreeMap_def wf_list_def next_of_def prev_of_def deref_def)

lemma TreeMap_inserts_wf:
  "wf_TreeMap this w e ns qs \<Longrightarrow>
   \<exists>w' ns' qs'. TreeMap_inserts this ps w = Some (w', Inr ()) \<and> wf_TreeMap this w' e ns' qs'"
proof (induction ps arbitrary: w ns qs)
  case Nil
  then show ?case by (auto simp: ret_def)
next
  case (Cons p ps)
  show ?case
  proof (cases "fst p \<in> fst ` set qs")
    case True
    from insertByPair_present [OF Cons.prems True]
    have "TreeMap_inserts this (p # ps) w = TreeMap_inserts this ps w"
      by (simp add: bnd_def)
    then show ?thesis using Cons.IH [OF Cons.prems] by simp
  next
    case False
    from insertByPair_absent [OF Cons.prems False]
    obtain w1 ns1 qs1 where r: "TreeMap_insertByPair this p w = Some (w1, Inr (handle this (length (iterators (store w))), True))"
      and wf1: "wf_TreeMap this w1 e ns1 qs1"
      by blast
    from r have "TreeMap_inserts this (p # ps) w = TreeMap_inserts this ps w1"
      by (simp add: bnd_def)
    then show ?thesis using Cons.IH [OF wf1] by simp
  qed
qed

lemma TreeMap_of_wf:
  "\<exists>w e ns qs. TreeMap_of this d ps = Some (w, Inr ()) \<and> wf_TreeMap this w e ns qs"
proof -
  obtain w0 where c: "TreeMap_constructor d (empty_heap :: ('a \<times> 'b) heap) = Some (w0, Inr ())"
    and wf0: "wf_TreeMap this w0 (length (iterators (empty_heap :: ('a \<times> 'b) heap))) [] []"
    using TreeMap_constructor_wf by blast
  from TreeMap_inserts_wf [OF wf0, of ps] c show ?thesis
    by (auto simp: TreeMap_of_def)
qed

text \<open>
  Claim C4.  Let the map be well formed with nodes \<open>ns\<close>, sentinel \<open>e\<close> and content
  \<open>ps\<close>, so that iterating it yields \<open>ps\<close>, sorted by key.  Then \<open>lowerBound(key)\<close>
  returns, without changing anything, the handle of the first node whose key is not
  before \<open>key\<close>: the node at the index that is the number of leading elements with a
  key before \<open>key\<close>, and \<open>end()\<close> (the sentinel) when all keys go before \<open>key\<close>.
  \<open>upperBound(key)\<close> returns the handle of the first node whose key is after
  \<open>key\<close>, and \<open>equalRange(key)\<close> the pair of the two.  This holds for every shape
  of the tree.  The witness is the specification's example: after inserting the keys
  5, 3, 8, 1, \<open>lowerBound(4)\<close> is the node of key 5 and \<open>upperBound(5)\<close> the node of
  key 8.
\<close>
theorem TreeMap_bounds:
  assumes "wf_TreeMap this w e ns ps"
  shows "elements (store w) (data w) = Some (map Some ps) \<and>
     lowerBound this key w
       = Some (w, Inr (handle this ((ns @ [e]) ! length (takeWhile (\<lambda>p. fst p < key) ps)))) \<and>
     upperBound this key w
       = Some (w, Inr (handle this ((ns @ [e]) ! length (takeWhile (\<lambda>p. fst p \<le> key) ps)))) \<and>
     equalRange this key w
       = Some (w, Inr (handle this ((ns @ [e]) ! length (takeWhile (\<lambda>p. fst p < key) ps)),
                       handle this ((ns @ [e]) ! length (takeWhile (\<lambda>p. fst p \<le> key) ps))))"
  using wf_TreeMap_elements [OF assms] bounds [OF assms, of key]
  by (simp add: equalRange_def bnd_def ret_def)

theorem TreeMap_bounds_witness:
  "case TreeMap_of 7 0 [(5 :: int, ''e''), (3, ''c''), (8, ''h''), (1, ''a'')] of
     Some (w, Inr u) \<Rightarrow>
       wf_TreeMap 7 w 0 [4, 2, 1, 3] [(1, ''a''), (3, ''c''), (5, ''e''), (8, ''h'')] \<and>
       map_option snd (on_store (MapIterator_first (handle 7 1)) w) = Some (Inr 5) \<and>
       map_option snd (on_store (MapIterator_first (handle 7 3)) w) = Some (Inr 8) \<and>
       lowerBound 7 4 w = Some (w, Inr (handle 7 1)) \<and>
       upperBound 7 5 w = Some (w, Inr (handle 7 3)) \<and>
       equalRange 7 3 w = Some (w, Inr (handle 7 2, handle 7 1)) \<and>
       lowerBound 7 9 w = Some (w, Inr (handle 7 0))
   | _ \<Rightarrow> False"
proof -
  have ev: "case TreeMap_of 7 0 [(5 :: int, ''e''), (3, ''c''), (8, ''h''), (1, ''a'')] of
     Some (w, Inr u) \<Rightarrow>
       wf_TreeMap 7 w 0 [4, 2, 1, 3] [(1, ''a''), (3, ''c''), (5, ''e''), (8, ''h'')] \<and>
       map_option snd (on_store (MapIterator_first (handle 7 1)) w) = Some (Inr 5) \<and>
       map_option snd (on_store (MapIterator_first (handle 7 3)) w) = Some (Inr 8)
   | _ \<Rightarrow> False"
    by code_simp
  show ?thesis
  proof (cases "TreeMap_of 7 0 [(5 :: int, ''e''), (3, ''c''), (8, ''h''), (1, ''a'')]")
    case None
    with ev show ?thesis by simp
  next
    case (Some c)
    obtain w r where c: "c = (w, r)" by (cases c)
    show ?thesis
    proof (cases r)
      case (Inl x)
      with ev Some c show ?thesis by simp
    next
      case (Inr u)
      with ev Some c
      have wf: "wf_TreeMap 7 w 0 [4, 2, 1, 3] [(1, ''a''), (3, ''c''), (5, ''e''), (8, ''h'')]"
        and k: "map_option snd (on_store (MapIterator_first (handle 7 1)) w) = Some (Inr 5)"
         "map_option snd (on_store (MapIterator_first (handle 7 3)) w) = Some (Inr 8)"
        by simp_all
      from TreeMap_bounds [OF wf, of 4] TreeMap_bounds [OF wf, of 5] TreeMap_bounds [OF wf, of 3]
        TreeMap_bounds [OF wf, of 9] wf k Some c Inr
      show ?thesis by simp
    qed
  qed
qed

text \<open>
  Claim C3.  On a well-formed map, \<open>insert\<close> of a pair whose key is present returns
  the handle of the element with that key and \<open>false\<close>, in the unchanged state.  With
  an absent key it returns the handle of a new node and \<open>true\<close>; the new state is
  well formed, and its content is the old one with the pair inserted before the first
  element whose key is not before the new key.
\<close>
theorem TreeMap_insertByPair_unique:
  assumes "wf_TreeMap this w e ns ps"
  shows "elements (store w) (data w) = Some (map Some ps) \<and>
     (fst pair \<in> fst ` set ps \<longrightarrow>
        TreeMap_insertByPair this pair w
          = Some (w, Inr (handle this (ns ! length (takeWhile (\<lambda>p. fst p < fst pair) ps)), False)) \<and>
        length (takeWhile (\<lambda>p. fst p < fst pair) ps) < length ps \<and>
        fst (ps ! length (takeWhile (\<lambda>p. fst p < fst pair) ps)) = fst pair) \<and>
     (fst pair \<notin> fst ` set ps \<longrightarrow>
        (\<exists>w'. TreeMap_insertByPair this pair w
                 = Some (w', Inr (handle this (length (iterators (store w))), True)) \<and>
              wf_TreeMap this w' e
                (take (length (takeWhile (\<lambda>p. fst p < fst pair) ps)) ns @
                 length (iterators (store w)) #
                 drop (length (takeWhile (\<lambda>p. fst p < fst pair) ps)) ns)
                (take (length (takeWhile (\<lambda>p. fst p < fst pair) ps)) ps @ pair #
                 drop (length (takeWhile (\<lambda>p. fst p < fst pair) ps)) ps) \<and>
              elements (store w') (data w')
                = Some (map Some (take (length (takeWhile (\<lambda>p. fst p < fst pair) ps)) ps @ pair #
                                  drop (length (takeWhile (\<lambda>p. fst p < fst pair) ps)) ps))))"
proof (intro conjI impI)
  show "elements (store w) (data w) = Some (map Some ps)"
    using assms by (rule wf_TreeMap_elements)
next
  assume "fst pair \<in> fst ` set ps"
  from insertByPair_present [OF assms this]
  show "TreeMap_insertByPair this pair w
          = Some (w, Inr (handle this (ns ! length (takeWhile (\<lambda>p. fst p < fst pair) ps)), False))"
    and "length (takeWhile (\<lambda>p. fst p < fst pair) ps) < length ps"
    and "fst (ps ! length (takeWhile (\<lambda>p. fst p < fst pair) ps)) = fst pair"
    by simp_all
next
  assume "fst pair \<notin> fst ` set ps"
  from insertByPair_absent [OF assms this]
  obtain w' where r: "TreeMap_insertByPair this pair w
         = Some (w', Inr (handle this (length (iterators (store w))), True))"
    and wf': "wf_TreeMap this w' e
       (take (length (takeWhile (\<lambda>p. fst p < fst pair) ps)) ns @ length (iterators (store w)) #
        drop (length (takeWhile (\<lambda>p. fst p < fst pair) ps)) ns)
       (take (length (takeWhile (\<lambda>p. fst p < fst pair) ps)) ps @ pair #
        drop (length (takeWhile (\<lambda>p. fst p < fst pair) ps)) ps)"
    by blast
  from r wf' wf_TreeMap_elements [OF wf']
  show "\<exists>w'. TreeMap_insertByPair this pair w
                 = Some (w', Inr (handle this (length (iterators (store w))), True)) \<and>
              wf_TreeMap this w' e
                (take (length (takeWhile (\<lambda>p. fst p < fst pair) ps)) ns @
                 length (iterators (store w)) #
                 drop (length (takeWhile (\<lambda>p. fst p < fst pair) ps)) ns)
                (take (length (takeWhile (\<lambda>p. fst p < fst pair) ps)) ps @ pair #
                 drop (length (takeWhile (\<lambda>p. fst p < fst pair) ps)) ps) \<and>
              elements (store w') (data w')
                = Some (map Some (take (length (takeWhile (\<lambda>p. fst p < fst pair) ps)) ps @ pair #
                                  drop (length (takeWhile (\<lambda>p. fst p < fst pair) ps)) ps))"
    by blast
qed

theorem TreeMap_insertByPair_unique_witness:
  "case TreeMap_of 7 0 [(5 :: int, ''e''), (3, ''c''), (8, ''h''), (1, ''a'')] of
     Some (w, Inr u) \<Rightarrow>
       wf_TreeMap 7 w 0 [4, 2, 1, 3] [(1, ''a''), (3, ''c''), (5, ''e''), (8, ''h'')] \<and>
       length (iterators (store w)) = 5 \<and>
       TreeMap_insertByPair 7 (3, ''z'') w = Some (w, Inr (handle 7 2, False)) \<and>
       (\<exists>w'. TreeMap_insertByPair 7 (4, ''z'') w = Some (w', Inr (handle 7 5, True)) \<and>
             elements (store w') (data w')
               = Some [Some (1, ''a''), Some (3, ''c''), Some (4, ''z''), Some (5, ''e''), Some (8, ''h'')])
   | _ \<Rightarrow> False"
proof -
  have ev: "case TreeMap_of 7 0 [(5 :: int, ''e''), (3, ''c''), (8, ''h''), (1, ''a'')] of
     Some (w, Inr u) \<Rightarrow>
       wf_TreeMap 7 w 0 [4, 2, 1, 3] [(1, ''a''), (3, ''c''), (5, ''e''), (8, ''h'')] \<and>
       length (iterators (store w)) = 5
   | _ \<Rightarrow> False"
    by code_simp
  show ?thesis
  proof (cases "TreeMap_of 7 0 [(5 :: int, ''e''), (3, ''c''), (8, ''h''), (1, ''a'')]")
    case None
    with ev show ?thesis by simp
  next
    case (Some c)
    obtain w r where c: "c = (w, r)" by (cases c)
    show ?thesis
    proof (cases r)
      case (Inl x)
      with ev Some c show ?thesis by simp
    next
      case (Inr u)
      with ev Some c
      have wf: "wf_TreeMap 7 w 0 [4, 2, 1, 3] [(1, ''a''), (3, ''c''), (5, ''e''), (8, ''h'')]"
        and l: "length (iterators (store w)) = 5"
        by simp_all
      from TreeMap_insertByPair_unique [OF wf, of "(3, ''z'')"]
        TreeMap_insertByPair_unique [OF wf, of "(4, ''z'')"] wf l Some c Inr
      show ?thesis by auto
    qed
  qed
qed

section \<open>sort\<close>

text \<open>
  Claim C8 fails on the code.  The body of \<open>sort\<close> never uses its parameter
  \<open>compare\<close>: the library's \<open>sort\<close> is called on the range of the vector alone.
  Whatever the vector and the library's sort do, two calls of \<open>sort\<close> with two
  comparators on the same store do the same, so the order that results is not the order
  of the comparator that was passed.
\<close>
theorem sort_ignores_compare:
  "List_sort L fuel this compare h = List_sort L fuel this compare' h"
  by (simp add: List_sort_def)

end
